theory Spec2Isabelle
  imports Main "HOL-Library.Sublist"
begin

section \<open>The request chain of \<open>ChatUI\<close> (webllm.ts, lines 43--45 and 209--217)\<close>

text \<open>
  \<open>chatRequestChain\<close> is a JavaScript promise, initially \<open>Promise.resolve()\<close>, and
  \<open>pushTask(task)\<close> replaces it by \<open>lastEvent.then(task)\<close>. The chain is therefore a
  list of cells, one per call of \<open>pushTask\<close>, in call order: cell \<open>i\<close> holds the task and
  the state of the promise that \<open>then\<close> returned for it. \<open>then\<close> is called with a single
  argument, so the reaction of a cell to its predecessor is the standard one:
  \<^item> predecessor fulfilled: the task is called; the cell's promise follows the promise that
    the (async) task returns;
  \<^item> predecessor rejected: the task is not called and the cell's promise rejects;
  \<^item> predecessor pending: nothing happens yet.
  A task is an async function: it runs until its next \<open>await\<close> on a pending promise, where
  it is suspended with a continuation, or until it returns or throws.
\<close>

datatype outcome = Fulfilled | Rejected

datatype 'k status = Suspended 'k | Returned outcome

datatype 'k tstate = Waiting | Running 'k | Done outcome | Skipped

datatype pstate = PPending | PFulfilled | PRejected

text \<open>The events of an instrumented queue: a task body begins, a task's promise settles.\<close>

datatype event = Started nat | Settled nat outcome

record ('t, 'k) chain =
  cells :: "('t \<times> 'k tstate) list"
  trace :: "event list"

definition emptyChain :: "('t, 'k) chain" where
  "emptyChain = \<lparr>cells = [], trace = []\<rparr>"

text \<open>The state of the promise of a cell.\<close>

fun settled :: "outcome \<Rightarrow> pstate" where
  "settled Fulfilled = PFulfilled"
| "settled Rejected = PRejected"

fun promise :: "'k tstate \<Rightarrow> pstate" where
  "promise Waiting = PPending"
| "promise (Running k) = PPending"
| "promise (Done out) = settled out"
| "promise Skipped = PRejected"

text \<open>\<open>pushTask\<close>: the new promise is derived from the current tail and becomes the tail.\<close>

definition pushTask :: "'t \<Rightarrow> ('t, 'k) chain \<Rightarrow> ('t, 'k) chain" where
  "pushTask task ch = ch\<lparr>cells := cells ch @ [(task, Waiting)]\<rparr>"

text \<open>
  The microtask checkpoint that follows every handler and every resumption: each waiting
  cell reacts to its predecessor's promise, front to back (a reaction can only enable
  reactions of later cells). \<open>start t s\<close> runs the body of task \<open>t\<close> on the program state
  \<open>s\<close> up to its first suspension. \<open>prev\<close> is the promise state of the predecessor and \<open>i\<close>
  the index of the first cell of the list.
\<close>

fun react :: "('t \<Rightarrow> 's \<Rightarrow> 'k status \<times> 's) \<Rightarrow> pstate \<Rightarrow> nat \<Rightarrow> ('t \<times> 'k tstate) list \<Rightarrow> 's
    \<Rightarrow> event list \<Rightarrow> ('t \<times> 'k tstate) list \<times> 's \<times> event list" where
  "react start prev i [] s tr = ([], s, tr)"
| "react start prev i ((t, x) # cs) s tr =
    (case x of
       Waiting \<Rightarrow>
        (case prev of
           PPending \<Rightarrow>
            (case react start PPending (Suc i) cs s tr of
               (cs', s', tr') \<Rightarrow> ((t, Waiting) # cs', s', tr'))
         | PRejected \<Rightarrow>
            (case react start PRejected (Suc i) cs s tr of
               (cs', s', tr') \<Rightarrow> ((t, Skipped) # cs', s', tr'))
         | PFulfilled \<Rightarrow>
            (case start t s of
               (Suspended k, s1) \<Rightarrow>
                (case react start PPending (Suc i) cs s1 (tr @ [Started i]) of
                   (cs', s', tr') \<Rightarrow> ((t, Running k) # cs', s', tr'))
             | (Returned out, s1) \<Rightarrow>
                (case react start (settled out) (Suc i) cs s1
                        (tr @ [Started i, Settled i out]) of
                   (cs', s', tr') \<Rightarrow> ((t, Done out) # cs', s', tr'))))
     | _ \<Rightarrow>
        (case react start (promise x) (Suc i) cs s tr of
           (cs', s', tr') \<Rightarrow> ((t, x) # cs', s', tr')))"

definition checkpoint :: "('t \<Rightarrow> 's \<Rightarrow> 'k status \<times> 's) \<Rightarrow> ('t, 'k) chain \<times> 's \<Rightarrow> ('t, 'k) chain \<times> 's" where
  "checkpoint start cs =
    (case cs of (ch, s) \<Rightarrow>
      (case react start PFulfilled 0 (cells ch) s (trace ch) of
         (cs', s', tr') \<Rightarrow> (\<lparr>cells = cs', trace = tr'\<rparr>, s')))"

text \<open>
  The promise awaited by the running task of cell \<open>i\<close> settles with reply \<open>r\<close>:
  \<open>resume r k s\<close> runs the continuation \<open>k\<close> up to the next suspension. A reply addressed
  to a cell that is not running is dropped.
\<close>

definition settle :: "('t \<Rightarrow> 's \<Rightarrow> 'k status \<times> 's) \<Rightarrow> ('r \<Rightarrow> 'k \<Rightarrow> 's \<Rightarrow> 'k status \<times> 's) \<Rightarrow> nat \<Rightarrow> 'r
    \<Rightarrow> ('t, 'k) chain \<times> 's \<Rightarrow> ('t, 'k) chain \<times> 's" where
  "settle start resume i r cs =
    (case cs of (ch, s) \<Rightarrow>
      if i < length (cells ch) then
        (case cells ch ! i of
           (t, Running k) \<Rightarrow>
            (case resume r k s of
               (Suspended k', s') \<Rightarrow> (ch\<lparr>cells := (cells ch)[i := (t, Running k')]\<rparr>, s')
             | (Returned out, s') \<Rightarrow>
                checkpoint start
                  (ch\<lparr>cells := (cells ch)[i := (t, Done out)],
                      trace := trace ch @ [Settled i out]\<rparr>, s'))
         | _ \<Rightarrow> (ch, s))
      else (ch, s))"

text \<open>
  What can happen to a queue: a handler pushes a task, an awaited promise settles, or a
  handler changes the program state without touching the queue.
\<close>

datatype ('t, 'r, 's) action = Push 't | Settle nat 'r | Handler "'s \<Rightarrow> 's"

fun step :: "('t \<Rightarrow> 's \<Rightarrow> 'k status \<times> 's) \<Rightarrow> ('r \<Rightarrow> 'k \<Rightarrow> 's \<Rightarrow> 'k status \<times> 's)
    \<Rightarrow> ('t, 'r, 's) action \<Rightarrow> ('t, 'k) chain \<times> 's \<Rightarrow> ('t, 'k) chain \<times> 's" where
  "step start resume (Push t) (ch, s) = checkpoint start (pushTask t ch, s)"
| "step start resume (Settle i r) (ch, s) = settle start resume i r (ch, s)"
| "step start resume (Handler f) (ch, s) = (ch, f s)"

fun exec :: "('t \<Rightarrow> 's \<Rightarrow> 'k status \<times> 's) \<Rightarrow> ('r \<Rightarrow> 'k \<Rightarrow> 's \<Rightarrow> 'k status \<times> 's)
    \<Rightarrow> ('t, 'r, 's) action list \<Rightarrow> ('t, 'k) chain \<times> 's \<Rightarrow> ('t, 'k) chain \<times> 's" where
  "exec start resume [] cs = cs"
| "exec start resume (a # as) cs = exec start resume as (step start resume a cs)"

text \<open>A task has begun executing when its body has been called.\<close>

fun begun :: "'k tstate \<Rightarrow> bool" where
  "begun (Running k) = True"
| "begun (Done out) = True"
| "begun Waiting = False"
| "begun Skipped = False"

section \<open>The state of \<open>ChatUI\<close> (webllm.ts, lines 26--45)\<close>

text \<open>
  A turn of the conversation as it is sent to the engine
  (\<open>webllm.ChatCompletionMessageParam\<close>; the code only builds the roles \<open>user\<close> and
  \<open>assistant\<close>).
\<close>

datatype role = User | Assistant

record ChatCompletionMessageParam =
  role :: role
  content :: string

text \<open>
  A message block of the chat box \<open>uiChat\<close>: its kind (the \<open>kind\<close> in the class
  \<open>msg kind-msg\<close>) and the content of its \<open>msg-text\<close> element. The content is always
  built from \<open>DOMPurify.sanitize(await marked.parse(text))\<close>, either set or appended, so
  it is kept as the list of the source texts whose renderings are concatenated. A
  rendering is taken to hold no element of class \<open>msg\<close> itself, so that the lookups by
  class name (lines 300 and 322) meet the blocks only.
\<close>

record msg =
  kind :: string
  msgText :: "string list"

text \<open>
  \<open>appendMessage\<close>, \<open>appendUserMessage\<close> and \<open>updateLastMessage\<close> are async functions that no
  caller awaits. Each runs up to its \<open>await marked.parse(text)\<close> at the call and touches
  the document when that promise has resolved. What is left to do then is a \<open>render\<close>:
  insert a new block of a kind at the end of the chat box (\<open>appendMessage\<close>), or write to
  the \<open>msg-text\<close> of a block that was found or made at the call, appending when the flag
  is set (\<open>updateLastMessage\<close>, \<open>appendUserMessage\<close>). The block of a write is the element
  itself, named here by its position among all blocks ever inserted.
\<close>

datatype render = Insert string string | Write nat string bool

text \<open>The methods of \<open>this.engine\<close> that \<open>ChatUI\<close> calls, recorded in call order.\<close>

datatype engine_call =
    CompletionsCreate "ChatCompletionMessageParam list"
  | GetMessage
  | InterruptGenerate
  | ResetChat
  | Unload
  | GetMaxStorageBufferBindingSize
  | GetGPUVendor

text \<open>
  What the collaborators do during one load (\<open>initChatUI\<close>): the texts that
  \<open>CreateMLCEngine\<close> still reports to \<open>initProgressCallback\<close>, whether it and
  \<open>MemoryVectorStore.fromDocuments\<close> reject (with \<open>err.toString()\<close>), the number of catalog
  entries \<open>values.length\<close> (the catalog \<open>products.json\<close> is not among the sources), and the
  outcome of the \<open>Promise.all\<close> of \<open>getMaxStorageBufferBindingSize\<close> and \<open>getGPUVendor\<close>: a
  rejection, or the size and the vendor. A load is suspended at one of three awaits.
\<close>

record load_env =
  progressReports :: "string list"
  engineFailure :: "string option"
  valuesLength :: nat
  storeFailure :: "string option"
  probed :: "string + int \<times> string"

datatype load_phase = LoadEngine | LoadStore | LoadProbe

text \<open>
  The fields of the class, and what is in flight outside the request chain:
  \<^item> \<open>blocks\<close>: every block ever inserted into \<open>uiChat\<close>, in insertion order, each with
    whether it is still a child of \<open>uiChat\<close> (a reset removes blocks, and a render issued
    before the reset may still write to a removed element);
  \<^item> \<open>rendering\<close>: the renders whose \<open>marked.parse\<close> has not resolved yet, oldest first.
    The promise pipeline of \<open>marked.parse\<close> has the same length for every text, so they
    resolve in call order;
  \<^item> \<open>chatInputEnabled\<close> stands for the absence of the \<open>disabled\<close> attribute on the input
    field, the send button and the reset button, which \<open>enableChatInput\<close> always sets
    together; \<open>downloadEnabled\<close> for its absence on the download button; \<open>progressShown\<close>
    for the progress bar being visible and the download button hidden (\<open>showProgress\<close>);
  \<^item> \<open>loads\<close>: the calls of \<open>initChatUI\<close> that are suspended at an await, oldest first.
\<close>

record ChatUI =
  blocks :: "(bool \<times> msg) list"
  rendering :: "render list"
  uiChatInput :: string
  uiChatInputPlaceholder :: string
  uiChatInfoLabel :: string
  chatLoaded :: bool
  requestInProgress :: bool
  chatHistory :: "ChatCompletionMessageParam list"
  chatInputEnabled :: bool
  downloadEnabled :: bool
  progressShown :: bool
  engineCalls :: "engine_call list"
  loads :: "(load_phase \<times> load_env) list"

text \<open>The children of the chat box \<open>uiChat\<close>, in document order.\<close>

definition uiChat :: "ChatUI \<Rightarrow> msg list" where
  "uiChat ui = map snd (filter fst (blocks ui))"

text \<open>
  The fields as the class initialises them; the attributes of the controls come from the
  page, which is not part of the sources, and are taken as enabled.
\<close>

definition newChatUI :: ChatUI where
  "newChatUI = \<lparr>blocks = [], rendering = [], uiChatInput = [], uiChatInputPlaceholder = [],
     uiChatInfoLabel = [], chatLoaded = False, requestInProgress = False, chatHistory = [],
     chatInputEnabled = True, downloadEnabled = True, progressShown = False,
     engineCalls = [], loads = []\<rparr>"

definition call :: "engine_call \<Rightarrow> ChatUI \<Rightarrow> ChatUI" where
  "call c ui = ui\<lparr>engineCalls := engineCalls ui @ [c]\<rparr>"

subsection \<open>Helpers (lines 47--67 and 254--331)\<close>

definition showProgress :: "bool \<Rightarrow> ChatUI \<Rightarrow> ChatUI" where
  "showProgress sh ui = ui\<lparr>progressShown := sh\<rparr>"

definition enableChatInput :: "bool \<Rightarrow> ChatUI \<Rightarrow> ChatUI" where
  "enableChatInput enable ui = ui\<lparr>chatInputEnabled := enable\<rparr>"

text \<open>
  \<open>uiChat\<close> is set by \<open>CreateAsync\<close> before any handler is registered, so the check
  \<open>this.uiChat === undefined\<close> of the three helpers below never fires. \<open>appendMessage\<close>
  inserts its block after the await.
\<close>

definition appendMessage :: "string \<Rightarrow> string \<Rightarrow> ChatUI \<Rightarrow> ChatUI" where
  "appendMessage k text ui = ui\<lparr>rendering := rendering ui @ [Insert k text]\<rparr>"

text \<open>
  \<open>appendUserMessage\<close> inserts an empty block of class \<open>msg primary-msg\<close> at the call
  (line 283) and adds the rendering to its \<open>msg-text\<close> after the await (line 292).
\<close>

definition appendUserMessage :: "string \<Rightarrow> ChatUI \<Rightarrow> ChatUI" where
  "appendUserMessage text ui =
     ui\<lparr>blocks := blocks ui @ [(True, \<lparr>kind = ''primary'', msgText = []\<rparr>)],
        rendering := rendering ui @ [Write (length (blocks ui)) text True]\<rparr>"

text \<open>The last child of \<open>uiChat\<close> of a kind (lines 300--302), by its position.\<close>

fun last_of_kind :: "string \<Rightarrow> (bool \<times> msg) list \<Rightarrow> nat option" where
  "last_of_kind k [] = None"
| "last_of_kind k (b # bs) =
     (case last_of_kind k bs of
        Some i \<Rightarrow> Some (Suc i)
      | None \<Rightarrow> if fst b \<and> kind (snd b) = k then Some 0 else None)"

text \<open>
  \<open>updateLastMessage\<close> looks the block up at the call and writes to it after the await.
  With no such block it throws at the call, but inside an async function that no caller
  awaits: the rejection reaches nobody and nothing is left to render.
\<close>

definition updateLastMessage :: "string \<Rightarrow> string \<Rightarrow> bool \<Rightarrow> ChatUI \<Rightarrow> ChatUI" where
  "updateLastMessage k text keepText ui =
     (case last_of_kind k (blocks ui) of
        None \<Rightarrow> ui
      | Some i \<Rightarrow> ui\<lparr>rendering := rendering ui @ [Write i text keepText]\<rparr>)"

text \<open>
  What a render does to the blocks when its \<open>marked.parse\<close> has resolved. A write reads
  the content of its element at that moment (line 309); whether the element is still in
  the document makes no difference to it.
\<close>

fun render_op :: "render \<Rightarrow> (bool \<times> msg) list \<Rightarrow> (bool \<times> msg) list" where
  "render_op (Insert k text) bs = bs @ [(True, \<lparr>kind = k, msgText = [text]\<rparr>)]"
| "render_op (Write i text keepText) bs =
     (if i < length bs
      then bs[i := (fst (bs ! i),
                    (snd (bs ! i))\<lparr>msgText :=
                       (if keepText then msgText (snd (bs ! i)) @ [text] else [text])\<rparr>)]
      else bs)"

text \<open>The oldest render lands; all renders in flight land, in their order.\<close>

definition render_next :: "ChatUI \<Rightarrow> ChatUI" where
  "render_next ui =
     (case rendering ui of
        [] \<Rightarrow> ui
      | r # rs \<Rightarrow> ui\<lparr>blocks := render_op r (blocks ui), rendering := rs\<rparr>)"

definition flush :: "ChatUI \<Rightarrow> ChatUI" where
  "flush ui = ui\<lparr>blocks := fold render_op (rendering ui) (blocks ui), rendering := []\<rparr>"

definition clearTags :: "string list" where
  "clearTags = [''primary'', ''secondary'', ''warning'', ''error'', ''danger'', ''info'']"

text \<open>
  \<open>resetChatHistory\<close> removes the blocks of the six kinds from the chat box at the call;
  the block of its own \<open>appendMessage\<close> (line 330) is inserted after the await.
\<close>

definition resetChatHistory :: "ChatUI \<Rightarrow> ChatUI" where
  "resetChatHistory ui =
     appendMessage ''info'' ''Chat assistant is ready''
       (ui\<lparr>chatHistory := [],
           blocks := map (\<lambda>b. (fst b \<and> kind (snd b) \<notin> set clearTags, snd b)) (blocks ui),
           uiChatInfoLabel := []\<rparr>)"

subsection \<open>Tasks and what they await\<close>

text \<open>
  The two closures passed to \<open>pushTask\<close> (lines 228--230 and 239--242), the awaits at which
  they can be suspended, and what an awaited promise can deliver.
  \<open>AwaitChunk cur usage\<close> is the \<open>for await\<close> loop with the locals \<open>curMessage\<close> and
  \<open>usage\<close>; the usage is kept as the text that lines 384--388 make of it. \<open>Failed e\<close>
  is a rejection, \<open>e\<close> being \<open>err.toString()\<close>.
\<close>

datatype task = GenerateTask | ResetTask

datatype cont =
    AwaitCreate
  | AwaitChunk string "string option"
  | AwaitGetMessage
  | AwaitUnload
  | AwaitResetChat

datatype reply =
    Resolved
  | Failed string
  | Chunk "string option" "string option"
  | StreamEnd
  | Message string

subsection \<open>\<open>unloadEngine\<close> (lines 245--252)\<close>

definition unloadEngine_call :: "ChatUI \<Rightarrow> ChatUI" where
  "unloadEngine_call ui = call Unload ui"

definition unloadEngine_done :: "ChatUI \<Rightarrow> ChatUI" where
  "unloadEngine_done ui =
     appendMessage ''info'' ''Engine unloaded. You can download models again and retry.''
       ((enableChatInput False (showProgress False (ui\<lparr>chatLoaded := False\<rparr>)))
          \<lparr>downloadEnabled := True\<rparr>)"

subsection \<open>\<open>asyncGenerate\<close> (lines 336--400)\<close>

definition maxMessages :: nat where
  "maxMessages = 4"

text \<open>\<open>xs.slice(-n)\<close>: the last \<open>n\<close> elements, all of them when there are fewer.\<close>

definition slice_last :: "nat \<Rightarrow> 'a list \<Rightarrow> 'a list" where
  "slice_last n xs = drop (length xs - n) xs"

text \<open>Lines 338--371: up to the await of \<open>completions.create\<close>.\<close>

definition asyncGenerate_begin :: "ChatUI \<Rightarrow> cont status \<times> ChatUI" where
  "asyncGenerate_begin ui =
    (let ui1 = ui\<lparr>requestInProgress := True\<rparr>;
         prompt = uiChatInput ui1
     in if prompt = [] then (Returned Fulfilled, ui1\<lparr>requestInProgress := False\<rparr>)
        else
          (let ui2 = appendUserMessage prompt ui1;
               ui3 = ui2\<lparr>uiChatInput := [], uiChatInputPlaceholder := ''Generating...''\<rparr>;
               ui4 = appendMessage ''secondary'' ''... thinking ...'' ui3;
               ui5 = ui4\<lparr>chatHistory := chatHistory ui4 @ [\<lparr>role = User, content = prompt\<rparr>]\<rparr>;
               ui6 = (if length (chatHistory ui5) > maxMessages
                      then ui5\<lparr>chatHistory := slice_last maxMessages (chatHistory ui5)\<rparr>
                      else ui5)
           in (Suspended AwaitCreate, call (CompletionsCreate (chatHistory ui6)) ui6)))"

text \<open>Lines 393--396: the catch block, up to the await of \<open>engine.unload()\<close>.\<close>

definition asyncGenerate_catch :: "string \<Rightarrow> ChatUI \<Rightarrow> cont status \<times> ChatUI" where
  "asyncGenerate_catch err ui =
     (Suspended AwaitUnload,
      unloadEngine_call (appendMessage ''danger'' (''Generate error, '' @ err) ui))"

text \<open>Lines 398--399.\<close>

definition asyncGenerate_end :: "ChatUI \<Rightarrow> cont status \<times> ChatUI" where
  "asyncGenerate_end ui =
     (Returned Fulfilled,
      ui\<lparr>uiChatInputPlaceholder := ''Type a message...'', requestInProgress := False\<rparr>)"

text \<open>
  The continuation after each await. A reply that the awaited promise cannot deliver
  leaves the task suspended. \<open>Failed e\<close> at an await of the try block also stands for an
  exception thrown by the statements between this await and the next (they change no
  state before they throw); an empty or missing \<open>delta.content\<close> leaves \<open>curMessage\<close> as it
  is. A rejection of \<open>engine.unload()\<close> is inside the catch block, so it leaves
  \<open>unloadEngine\<close> and \<open>asyncGenerate\<close> as a rejection.
\<close>

fun asyncGenerate_resume :: "reply \<Rightarrow> cont \<Rightarrow> ChatUI \<Rightarrow> cont status \<times> ChatUI" where
  "asyncGenerate_resume Resolved AwaitCreate ui = (Suspended (AwaitChunk [] None), ui)"
| "asyncGenerate_resume (Failed e) AwaitCreate ui = asyncGenerate_catch e ui"
| "asyncGenerate_resume (Chunk curDelta u) (AwaitChunk curMessage usage) ui =
     (let curMessage' = (case curDelta of None \<Rightarrow> curMessage | Some d \<Rightarrow> curMessage @ d);
          ui' = updateLastMessage ''secondary'' curMessage' False ui;
          usage' = (case u of None \<Rightarrow> usage | Some x \<Rightarrow> Some x)
      in (Suspended (AwaitChunk curMessage' usage'), ui'))"
| "asyncGenerate_resume StreamEnd (AwaitChunk curMessage usage) ui =
     (let ui' = (case usage of None \<Rightarrow> ui | Some label \<Rightarrow> ui\<lparr>uiChatInfoLabel := label\<rparr>)
      in (Suspended AwaitGetMessage, call GetMessage ui'))"
| "asyncGenerate_resume (Failed e) (AwaitChunk curMessage usage) ui = asyncGenerate_catch e ui"
| "asyncGenerate_resume (Message finalMessage) AwaitGetMessage ui =
     (let ui' = updateLastMessage ''secondary'' finalMessage False ui
      in asyncGenerate_end
           (ui'\<lparr>chatHistory := chatHistory ui' @ [\<lparr>role = Assistant, content = finalMessage\<rparr>]\<rparr>))"
| "asyncGenerate_resume (Failed e) AwaitGetMessage ui = asyncGenerate_catch e ui"
| "asyncGenerate_resume Resolved AwaitUnload ui = asyncGenerate_end (unloadEngine_done ui)"
| "asyncGenerate_resume (Failed e) AwaitUnload ui = (Returned Rejected, ui)"
| "asyncGenerate_resume r k ui = (Suspended k, ui)"

text \<open>
  One execution of \<open>asyncGenerate\<close>, given the replies the engine delivers to its awaits
  in order: \<open>Suspended\<close> when the replies end before the function does.
\<close>

fun feed :: "reply list \<Rightarrow> cont \<Rightarrow> ChatUI \<Rightarrow> cont status \<times> ChatUI" where
  "feed [] k ui = (Suspended k, ui)"
| "feed (r # rs) k ui =
     (case asyncGenerate_resume r k ui of
        (Suspended k', ui') \<Rightarrow> feed rs k' ui'
      | (Returned out, ui') \<Rightarrow> (Returned out, ui'))"

definition asyncGenerate :: "reply list \<Rightarrow> ChatUI \<Rightarrow> cont status \<times> ChatUI" where
  "asyncGenerate rs ui =
     (case asyncGenerate_begin ui of
        (Suspended k, ui') \<Rightarrow> feed rs k ui'
      | (Returned out, ui') \<Rightarrow> (Returned out, ui'))"

subsection \<open>\<open>initChatUI\<close> (lines 69--77 and 106--207)\<close>

text \<open>The decimal text of a number, as string concatenation with a number gives it.\<close>

fun decimal :: "nat \<Rightarrow> string" where
  "decimal n =
     (if n < 10 then [char_of (48 + n)]
      else decimal (n div 10) @ [char_of (48 + n mod 10)])"

declare decimal.simps [simp del]

text \<open>The update of the message; the width of the progress bar is not modelled.\<close>

definition initProgressCallback :: "string \<Rightarrow> ChatUI \<Rightarrow> ChatUI" where
  "initProgressCallback text ui = updateLastMessage ''warning'' text False ui"

definition androidMaxStorageBufferBindingSize :: int where
  "androidMaxStorageBufferBindingSize = push_bit 27 1"

definition mobileVendors :: "string list" where
  "mobileVendors = [''qualcomm'', ''arm'']"

text \<open>
  Lines 167--191, the device-capability probe. \<open>deviceProbe_call\<close> is the two calls up to
  the await of their \<open>Promise.all\<close>; \<open>deviceProbe_settle\<close> is what follows it and gives the
  value of the local \<open>restrictModels\<close> at line 192 with the state. The two locals keep
  their initial values \<open>0\<close> and \<open>""\<close> when the \<open>Promise.all\<close> rejects, since the
  destructuring assignment is never made.
\<close>

definition deviceProbe_call :: "ChatUI \<Rightarrow> ChatUI" where
  "deviceProbe_call ui = call GetGPUVendor (call GetMaxStorageBufferBindingSize ui)"

definition deviceProbe_settle :: "string + int \<times> string \<Rightarrow> ChatUI \<Rightarrow> bool \<times> ChatUI" where
  "deviceProbe_settle p ui0 =
    (let (maxStorageBufferBindingSize, gpuVendor, ui1) =
           (case p of
              Inr (bindingSize, vendor) \<Rightarrow> (bindingSize, vendor, ui0)
            | Inl err \<Rightarrow>
               (0, [], appendMessage ''danger'' (''Error reading GPU-vendor '' @ err) ui0))
     in if (length gpuVendor \<noteq> 0 \<and> gpuVendor \<in> set mobileVendors)
            \<or> maxStorageBufferBindingSize \<le> androidMaxStorageBufferBindingSize
        then (True,
              updateLastMessage ''info''
                ''Your device seems to have limited resources, so we restrict the selectable models.''
                True ui1)
        else (False, ui1))"

definition deviceProbe :: "string + int \<times> string \<Rightarrow> ChatUI \<Rightarrow> bool \<times> ChatUI" where
  "deviceProbe p ui = deviceProbe_settle p (deviceProbe_call ui)"

text \<open>Lines 199--206, the outer catch block.\<close>

definition initChatUI_catch :: "string \<Rightarrow> ChatUI \<Rightarrow> ChatUI" where
  "initChatUI_catch err ui =
     (showProgress False ((appendMessage ''danger'' err ui)\<lparr>downloadEnabled := True\<rparr>))
       \<lparr>requestInProgress := False, chatLoaded := False\<rparr>"

text \<open>Lines 124--134: up to the await of \<open>CreateMLCEngine\<close>; no load when already loaded.\<close>

definition initChatUI_begin :: "ChatUI \<Rightarrow> load_phase option \<times> ChatUI" where
  "initChatUI_begin ui =
     (if chatLoaded ui then (None, ui)
      else (Some LoadEngine, ui\<lparr>requestInProgress := True\<rparr>))"

text \<open>Lines 192--198.\<close>

definition initChatUI_end :: "ChatUI \<Rightarrow> ChatUI" where
  "initChatUI_end ui =
     (let ui1 = updateLastMessage ''info''
                  ([CHR 0x0A, CHR 0x0A] @ ''Chat assistant is ready'') True ui;
          ui2 = updateLastMessage ''warning''
                  ([CHR 0x0A, CHR 0x0A] @ ''All models loaded and engine initialized.'') True ui1
      in (enableChatInput True (showProgress False ui2))
           \<lparr>requestInProgress := False, chatLoaded := True\<rparr>)"

text \<open>
  One step of a suspended load: \<open>CreateMLCEngine\<close> reports progress, or the awaited
  promise settles and the load runs to its next await or to its end (\<open>None\<close>).
\<close>

fun load_step :: "load_phase \<times> load_env \<Rightarrow> ChatUI \<Rightarrow> (load_phase \<times> load_env) option \<times> ChatUI" where
  "load_step (LoadEngine, env) ui =
     (case progressReports env of
        t # ts \<Rightarrow> (Some (LoadEngine, env\<lparr>progressReports := ts\<rparr>), initProgressCallback t ui)
      | [] \<Rightarrow>
         (case engineFailure env of
            Some err \<Rightarrow> (None, initChatUI_catch err ui)
          | None \<Rightarrow>
             (Some (LoadStore, env),
              appendMessage ''info'' ''Create vector store from product data. Standby...'' ui)))"
| "load_step (LoadStore, env) ui =
     (case storeFailure env of
        Some err \<Rightarrow> (None, initChatUI_catch err ui)
      | None \<Rightarrow>
         (Some (LoadProbe, env),
          deviceProbe_call
            (updateLastMessage ''info''
               ('' Vector store created. '' @ decimal (valuesLength env)
                  @ '' JSON-documents added to the store.'') False ui)))"
| "load_step (LoadProbe, env) ui =
     (None, initChatUI_end (snd (deviceProbe_settle (probed env) ui)))"

fun load_size :: "load_phase \<times> load_env \<Rightarrow> nat" where
  "load_size (LoadEngine, env) = 3 + length (progressReports env)"
| "load_size (LoadStore, env) = 2"
| "load_size (LoadProbe, env) = 1"

text \<open>
  A load on its own, from a suspension to its end, when the collaborators take their
  time: the renders in flight have landed whenever a report arrives or an awaited promise
  settles, and those of the last statements land after them.
\<close>

function load_to_end :: "load_phase \<times> load_env \<Rightarrow> ChatUI \<Rightarrow> ChatUI" where
  "load_to_end l ui =
     (case load_step l (flush ui) of
        (None, ui') \<Rightarrow> flush ui'
      | (Some l', ui') \<Rightarrow> load_to_end l' ui')"
  by pat_completeness auto
termination
proof (relation "measure (\<lambda>(l, ui). load_size l)")
  show "wf (measure (\<lambda>(l, ui). load_size l))" by simp
next
  fix l :: "load_phase \<times> load_env" and ui x l' ui'
  assume "(x, ui') = load_step l (flush ui)" and "x = Some l'"
  then have "load_step l (flush ui) = (Some l', ui')" by simp
  then have "load_size l' < load_size l"
    by (cases l rule: load_size.cases)
       (auto split: list.splits option.splits)
  then show "((l', ui'), (l, ui)) \<in> measure (\<lambda>(l, ui). load_size l)" by simp
qed

declare load_to_end.simps [simp del]

definition initChatUI :: "load_env \<Rightarrow> ChatUI \<Rightarrow> ChatUI" where
  "initChatUI env ui =
     (case initChatUI_begin ui of
        (None, ui') \<Rightarrow> ui'
      | (Some ph, ui') \<Rightarrow> load_to_end (ph, env) ui')"

text \<open>The click handler of the download button: lines 107--110, and the whole of it.\<close>

definition onDownload_click :: "ChatUI \<Rightarrow> ChatUI" where
  "onDownload_click ui =
     appendMessage ''warning'' ''Creating engine and downloading models...''
       (enableChatInput False (showProgress True (ui\<lparr>downloadEnabled := False\<rparr>)))"

definition onDownload :: "load_env \<Rightarrow> ChatUI \<Rightarrow> ChatUI" where
  "onDownload env ui = initChatUI env (onDownload_click ui)"

subsection \<open>The queued tasks and the event handlers (lines 99--119 and 219--243)\<close>

text \<open>
  The closure of \<open>onGenerate\<close> awaits \<open>asyncGenerate\<close>; the closure of \<open>onReset\<close> awaits
  \<open>engine.resetChat\<close> and then calls \<open>resetChatHistory\<close>. Neither has a \<open>catch\<close>: a
  rejection of what they await rejects the task.
\<close>

fun start_task :: "task \<Rightarrow> ChatUI \<Rightarrow> cont status \<times> ChatUI" where
  "start_task GenerateTask ui = asyncGenerate_begin ui"
| "start_task ResetTask ui = (Suspended AwaitResetChat, call ResetChat ui)"

fun resume_task :: "reply \<Rightarrow> cont \<Rightarrow> ChatUI \<Rightarrow> cont status \<times> ChatUI" where
  "resume_task Resolved AwaitResetChat ui = (Returned Fulfilled, resetChatHistory ui)"
| "resume_task (Failed e) AwaitResetChat ui = (Returned Rejected, ui)"
| "resume_task r AwaitResetChat ui = (Suspended AwaitResetChat, ui)"
| "resume_task r k ui = asyncGenerate_resume r k ui"

type_synonym session = "(task, cont) chain \<times> ChatUI"

definition newSession :: session where
  "newSession = (emptyChain, newChatUI)"

text \<open>
  A handler runs to its end and is followed by the microtask checkpoint; \<open>pushTask\<close> is
  the last statement of both handlers.
\<close>

definition onGenerate :: "session \<Rightarrow> session" where
  "onGenerate se =
     (case se of (ch, ui) \<Rightarrow>
        if requestInProgress ui then (ch, ui)
        else checkpoint start_task (pushTask GenerateTask ch, ui))"

definition onReset :: "session \<Rightarrow> session" where
  "onReset se =
     (case se of (ch, ui) \<Rightarrow>
        checkpoint start_task
          (pushTask ResetTask ch,
           if requestInProgress ui then call InterruptGenerate ui else ui))"

fun running_index :: "('t \<times> 'k tstate) list \<Rightarrow> nat option" where
  "running_index [] = None"
| "running_index ((t, x) # cs) =
     (case x of Running k \<Rightarrow> Some 0 | _ \<Rightarrow> map_option Suc (running_index cs))"

text \<open>
  What happens to the page:
  \<^item> \<open>Send\<close>: the send button or the Enter key (lines 103--105 and 115--119);
  \<^item> \<open>Reset\<close>: the reset button (lines 100--102);
  \<^item> \<open>TypeInput\<close>: the user edits the input field;
  \<^item> \<open>Reply\<close>: the engine settles the promise that the running task awaits;
  \<^item> \<open>Render\<close>: the \<open>marked.parse\<close> of the oldest render in flight resolves;
  \<^item> \<open>Download\<close>: the download button (lines 106--113), which starts a load that will
    meet the given behaviour of the collaborators;
  \<^item> \<open>LoadStep i\<close>: the \<open>i\<close>-th suspended load makes its next step.
  The events may come in any order; the page can only leave some out (a disabled control
  raises none). A load runs outside the request chain: it reads and writes
  \<open>requestInProgress\<close> and \<open>chatLoaded\<close> whatever the queue is doing.
\<close>

datatype ui_event =
    Send
  | Reset
  | TypeInput string
  | Reply reply
  | Render
  | Download load_env
  | LoadStep nat

fun ui_step :: "ui_event \<Rightarrow> session \<Rightarrow> session" where
  "ui_step Send se = onGenerate se"
| "ui_step Reset se = onReset se"
| "ui_step (TypeInput text) (ch, ui) = (ch, ui\<lparr>uiChatInput := text\<rparr>)"
| "ui_step (Reply r) (ch, ui) =
     (case running_index (cells ch) of
        None \<Rightarrow> (ch, ui)
      | Some i \<Rightarrow> settle start_task resume_task i r (ch, ui))"
| "ui_step Render (ch, ui) = (ch, render_next ui)"
| "ui_step (Download env) (ch, ui) =
     (ch, case initChatUI_begin (onDownload_click ui) of
            (None, ui') \<Rightarrow> ui'
          | (Some ph, ui') \<Rightarrow> ui'\<lparr>loads := loads ui' @ [(ph, env)]\<rparr>)"
| "ui_step (LoadStep i) (ch, ui) =
     (ch, if i < length (loads ui)
          then (case load_step (loads ui ! i) ui of
                  (None, ui') \<Rightarrow> ui'\<lparr>loads := take i (loads ui') @ drop (Suc i) (loads ui')\<rparr>
                | (Some l, ui') \<Rightarrow> ui'\<lparr>loads := (loads ui')[i := l]\<rparr>)
          else ui)"

fun run :: "ui_event list \<Rightarrow> session \<Rightarrow> session" where
  "run [] se = se"
| "run (e # es) se = run es (ui_step e se)"


section \<open>Invariants of the request chain\<close>

text \<open>
  The trace and the cells agree: a task's start is in the trace exactly when its cell has
  begun, and its settlement exactly when its cell is done with that outcome.
\<close>

definition agree :: "event list \<Rightarrow> ('t \<times> 'k tstate) list \<Rightarrow> bool" where
  "agree tr cs \<longleftrightarrow>
     (\<forall>j. Started j \<in> set tr \<longleftrightarrow> (j < length cs \<and> begun (snd (cs ! j)))) \<and>
     (\<forall>j out. Settled j out \<in> set tr \<longleftrightarrow> (j < length cs \<and> snd (cs ! j) = Done out))"

text \<open>Every start of a task but the first comes after its predecessor's settlement.\<close>

definition ordered :: "event list \<Rightarrow> bool" where
  "ordered tr \<longleftrightarrow>
     (\<forall>pre post n. tr = pre @ Started (Suc n) # post \<longrightarrow> (\<exists>out. Settled n out \<in> set pre))"

definition tailp :: "('t \<times> 'k tstate) list \<Rightarrow> pstate" where
  "tailp pre = (if pre = [] then PFulfilled else promise (snd (last pre)))"

text \<open>
  After a checkpoint every cell has reacted to its predecessor (\<open>chained\<close>); before it,
  cells may still wait behind a settled predecessor (\<open>loose\<close>).
\<close>

fun loose :: "pstate \<Rightarrow> ('t \<times> 'k tstate) list \<Rightarrow> bool" where
  "loose prev [] = True"
| "loose prev ((t, x) # cs) =
    ((case prev of PPending \<Rightarrow> x = Waiting
      | PRejected \<Rightarrow> x = Skipped \<or> x = Waiting
      | PFulfilled \<Rightarrow> x \<noteq> Skipped) \<and> loose (promise x) cs)"

fun chained :: "pstate \<Rightarrow> ('t \<times> 'k tstate) list \<Rightarrow> bool" where
  "chained prev [] = True"
| "chained prev ((t, x) # cs) =
    ((case prev of PPending \<Rightarrow> x = Waiting
      | PRejected \<Rightarrow> x = Skipped
      | PFulfilled \<Rightarrow> begun x) \<and> chained (promise x) cs)"

definition inv :: "('t, 'k) chain \<Rightarrow> bool" where
  "inv ch \<longleftrightarrow> agree (trace ch) (cells ch) \<and> ordered (trace ch) \<and> chained PFulfilled (cells ch)"

section \<open>A reset requested during a generation\<close>



section \<open>The request chain keeps its invariants\<close>

lemma agree_empty: "agree [] []"
  by (simp add: agree_def)

lemma ordered_empty: "ordered []"
  by (simp add: ordered_def)

lemma ordered_snoc_Settled: "ordered tr \<Longrightarrow> ordered (tr @ [Settled i out])"
  unfolding ordered_def
proof (intro allI impI)
  fix pre post n
  assume o: "\<forall>pre post n. tr = pre @ Started (Suc n) # post \<longrightarrow> (\<exists>out. Settled n out \<in> set pre)"
    and e: "tr @ [Settled i out] = pre @ Started (Suc n) # post"
  show "\<exists>out. Settled n out \<in> set pre"
  proof (cases post rule: rev_cases)
    case Nil
    with e show ?thesis by simp
  next
    case (snoc post' x)
    with e have "tr = pre @ Started (Suc n) # post'" by simp
    with o show ?thesis by blast
  qed
qed

lemma ordered_snoc_Started:
  assumes "ordered tr" and "i = 0 \<or> (\<exists>out. Settled (i - 1) out \<in> set tr)"
  shows "ordered (tr @ [Started i])"
  unfolding ordered_def
proof (intro allI impI)
  fix pre post n
  assume e: "tr @ [Started i] = pre @ Started (Suc n) # post"
  show "\<exists>out. Settled n out \<in> set pre"
  proof (cases post rule: rev_cases)
    case Nil
    with e have "pre = tr" and "i = Suc n" by simp_all
    with assms(2) show ?thesis by simp
  next
    case (snoc post' x)
    with e have "tr = pre @ Started (Suc n) # post'" by simp
    with assms(1) show ?thesis unfolding ordered_def by blast
  qed
qed

lemma agree_start:
  assumes "agree tr cs" "i < length cs" "snd (cs ! i) = Waiting"
  shows "agree (tr @ [Started i]) (cs[i := (t, Running k)])"
  using assms unfolding agree_def by (auto simp: nth_list_update)

lemma agree_start_done:
  assumes "agree tr cs" "i < length cs" "snd (cs ! i) = Waiting"
  shows "agree (tr @ [Started i, Settled i out]) (cs[i := (t, Done out)])"
  using assms unfolding agree_def by (auto simp: nth_list_update)

lemma agree_skip:
  assumes "agree tr cs" "i < length cs" "snd (cs ! i) = Waiting"
  shows "agree tr (cs[i := (t, Skipped)])"
  using assms unfolding agree_def by (auto simp: nth_list_update)

lemma agree_resume:
  assumes "agree tr cs" "i < length cs" "snd (cs ! i) = Running k"
  shows "agree tr (cs[i := (t, Running k')])"
  using assms unfolding agree_def by (auto simp: nth_list_update)

lemma agree_finish:
  assumes "agree tr cs" "i < length cs" "snd (cs ! i) = Running k"
  shows "agree (tr @ [Settled i out]) (cs[i := (t, Done out)])"
  using assms unfolding agree_def by (auto simp: nth_list_update)

lemma agree_push:
  assumes "agree tr cs"
  shows "agree tr (cs @ [(t, Waiting)])"
  using assms unfolding agree_def by (auto simp: nth_append)

lemma tailp_snoc: "tailp (pre @ [(t, x)]) = promise x"
  by (simp add: tailp_def)

lemma settled_before:
  assumes "agree tr (pre @ cs)" "tailp pre = PFulfilled"
  shows "length pre = 0 \<or> (\<exists>out. Settled (length pre - 1) out \<in> set tr)"
proof (cases pre rule: rev_cases)
  case Nil
  then show ?thesis by simp
next
  case (snoc pre' c)
  obtain t x where c: "c = (t, x)" by (cases c)
  from assms(2) snoc c have "promise x = PFulfilled" by (simp add: tailp_def)
  then have "x = Done Fulfilled"
    by (cases x) (auto elim: settled.elims)
  with assms(1) snoc c have "Settled (length pre') Fulfilled \<in> set tr"
    unfolding agree_def by (auto simp: nth_append)
  with snoc show ?thesis by auto
qed

lemma react_inv:
  assumes "agree tr (pre @ cs)" "ordered tr" "prev = tailp pre" "i = length pre"
    "react start prev i cs s tr = (cs', s', tr')"
  shows "agree tr' (pre @ cs') \<and> ordered tr'"
  using assms
proof (induction cs arbitrary: pre prev i s tr cs' s' tr')
  case Nil
  then show ?case by simp
next
  case (Cons c cs)
  obtain t x where c: "c = (t, x)" by (cases c)
  have len: "length pre < length (pre @ c # cs)" by simp
  have upd: "\<And>y. (pre @ c # cs)[length pre := (t, y)] = (pre @ [(t, y)]) @ cs" by simp
  have nth: "snd ((pre @ c # cs) ! length pre) = x" using c by simp
  show ?case
  proof (cases "x = Waiting")
    case False
    then obtain cs1 where r: "react start (promise x) (Suc i) cs s tr = (cs1, s', tr')"
      and cs': "cs' = (t, x) # cs1"
      using Cons.prems(5) c by (cases x) (auto split: prod.splits)
    have "agree tr ((pre @ [(t, x)]) @ cs)" using Cons.prems(1) c by simp
    from Cons.IH[OF this Cons.prems(2) _ _ r] Cons.prems(4) cs'
    show ?thesis by (simp add: tailp_snoc)
  next
    case True
    note w = True
    show ?thesis
    proof (cases prev)
      case PPending
      then obtain cs1 where r: "react start PPending (Suc i) cs s tr = (cs1, s', tr')"
        and cs': "cs' = (t, Waiting) # cs1"
        using Cons.prems(5) c w by (auto split: prod.splits)
      have "agree tr ((pre @ [(t, Waiting)]) @ cs)" using Cons.prems(1) c w by simp
      from Cons.IH[OF this Cons.prems(2) _ _ r] Cons.prems(4) cs'
      show ?thesis by (simp add: tailp_snoc)
    next
      case PRejected
      then obtain cs1 where r: "react start PRejected (Suc i) cs s tr = (cs1, s', tr')"
        and cs': "cs' = (t, Skipped) # cs1"
        using Cons.prems(5) c w by (auto split: prod.splits)
      have "agree tr ((pre @ [(t, Skipped)]) @ cs)"
        using agree_skip[OF Cons.prems(1) len, where t=t] nth w upd by simp
      from Cons.IH[OF this Cons.prems(2) _ _ r] Cons.prems(4) cs'
      show ?thesis by (simp add: tailp_snoc)
    next
      case PFulfilled
      with Cons.prems(3) have tp: "tailp pre = PFulfilled" by simp
      from settled_before[OF Cons.prems(1) tp] Cons.prems(4)
      have before: "i = 0 \<or> (\<exists>out. Settled (i - 1) out \<in> set tr)" by simp
      obtain res s1 where st: "start t s = (res, s1)" by (cases "start t s")
      show ?thesis
      proof (cases res)
        case (Suspended k)
        then obtain cs1 where r: "react start PPending (Suc i) cs s1 (tr @ [Started i]) = (cs1, s', tr')"
          and cs': "cs' = (t, Running k) # cs1"
          using Cons.prems(5) c w PFulfilled st by (auto split: prod.splits)
        have a: "agree (tr @ [Started i]) ((pre @ [(t, Running k)]) @ cs)"
          using agree_start[OF Cons.prems(1) len, where t=t and k=k] nth w upd Cons.prems(4) by simp
        have o: "ordered (tr @ [Started i])"
          using ordered_snoc_Started[OF Cons.prems(2) before] .
        from Cons.IH[OF a o _ _ r] Cons.prems(4) cs'
        show ?thesis by (simp add: tailp_snoc)
      next
        case (Returned out)
        then obtain cs1 where r: "react start (settled out) (Suc i) cs s1 (tr @ [Started i, Settled i out]) = (cs1, s', tr')"
          and cs': "cs' = (t, Done out) # cs1"
          using Cons.prems(5) c w PFulfilled st by (auto split: prod.splits)
        have a: "agree (tr @ [Started i, Settled i out]) ((pre @ [(t, Done out)]) @ cs)"
          using agree_start_done[OF Cons.prems(1) len, where t=t and out=out] nth w upd Cons.prems(4) by simp
        have "ordered ((tr @ [Started i]) @ [Settled i out])"
          using ordered_snoc_Settled[OF ordered_snoc_Started[OF Cons.prems(2) before]] .
        then have o: "ordered (tr @ [Started i, Settled i out])" by simp
        from Cons.IH[OF a o _ _ r] Cons.prems(4) cs'
        show ?thesis by (simp add: tailp_snoc)
      qed
    qed
  qed
qed


lemma react_chained:
  "loose prev cs \<Longrightarrow> react start prev i cs s tr = (cs', s', tr') \<Longrightarrow> chained prev cs'"
proof (induction cs arbitrary: prev i s tr cs' s' tr')
  case Nil
  then show ?case by auto
next
  case (Cons c cs)
  obtain t x where c: "c = (t, x)" by (cases c)
  from Cons.prems c have l: "loose (promise x) cs" by simp
  show ?case
  proof (cases x)
    case Waiting
    with l have lp: "loose PPending cs" by simp
    have lr: "loose PRejected cs" using lp by (cases cs) auto
    have lf: "loose PFulfilled cs" using lp by (cases cs) auto
    have ls: "loose (settled out) cs" for out
      using lr lf by (cases out) auto
    show ?thesis
      using Cons.prems(2) c Waiting
      by (auto split: pstate.splits prod.splits status.splits
          dest: Cons.IH[OF lp] Cons.IH[OF lr] Cons.IH[OF ls])
  next
    case (Running k)
    with l have l': "loose PPending cs" by simp
    from Cons.prems c Running show ?thesis
      by (auto split: pstate.splits prod.splits dest: Cons.IH[OF l'])
  next
    case (Done out)
    with l have l': "loose (settled out) cs" by simp
    from Cons.prems c Done show ?thesis
      by (auto split: pstate.splits prod.splits dest: Cons.IH[OF l'])
  next
    case Skipped
    with l have l': "loose PRejected cs" by simp
    from Cons.prems c Skipped show ?thesis
      by (auto split: pstate.splits prod.splits dest: Cons.IH[OF l'])
  qed
qed

lemma waiting_loose: "chained PPending cs \<Longrightarrow> loose p cs"
  by (induction cs arbitrary: p) (auto split: pstate.splits)

lemma chained_loose: "chained prev cs \<Longrightarrow> loose prev cs"
  by (induction cs arbitrary: prev) (auto split: pstate.splits)

lemma loose_push: "chained prev cs \<Longrightarrow> loose prev (cs @ [(t, Waiting)])"
  by (induction cs arbitrary: prev) (auto split: pstate.splits)

lemma chained_resume:
  "chained prev cs \<Longrightarrow> i < length cs \<Longrightarrow> cs ! i = (t, Running k)
    \<Longrightarrow> chained prev (cs[i := (t, Running k')])"
proof (induction cs arbitrary: prev i)
  case Nil
  then show ?case by simp
next
  case (Cons c cs)
  obtain t' x where c: "c = (t', x)" by (cases c)
  with Cons show ?case by (cases i) (auto split: pstate.splits)
qed

lemma loose_finish:
  "chained prev cs \<Longrightarrow> i < length cs \<Longrightarrow> cs ! i = (t, Running k)
    \<Longrightarrow> loose prev (cs[i := (t, Done out)])"
proof (induction cs arbitrary: prev i)
  case Nil
  then show ?case by simp
next
  case (Cons c cs)
  show ?case
  proof (cases i)
    case 0
    with Cons.prems show ?thesis
      by (auto split: pstate.splits intro: waiting_loose)
  next
    case (Suc i')
    obtain t' x where c: "c = (t', x)" by (cases c)
    from Cons.prems Suc c have "loose (promise x) (cs[i' := (t, Done out)])"
      by (intro Cons.IH) auto
    with Cons.prems Suc c show ?thesis
      by (auto split: pstate.splits)
  qed
qed

lemma promise_fulfilled: "promise x = PFulfilled \<longleftrightarrow> x = Done Fulfilled"
  by (cases x) (auto elim: settled.elims)

lemma chained_begun:
  "chained prev cs \<Longrightarrow> j < length cs
    \<Longrightarrow> begun (snd (cs ! j)) = (prev = PFulfilled \<and> (\<forall>i<j. snd (cs ! i) = Done Fulfilled))"
proof (induction cs arbitrary: prev j)
  case Nil
  then show ?case by simp
next
  case (Cons c cs)
  obtain t x where c: "c = (t, x)" by (cases c)
  show ?case
  proof (cases j)
    case 0
    with Cons.prems c show ?thesis by (cases prev) auto
  next
    case (Suc j')
    from Cons.prems c Suc
    have ih: "begun (snd (cs ! j')) = (promise x = PFulfilled \<and> (\<forall>i<j'. snd (cs ! i) = Done Fulfilled))"
      by (intro Cons.IH) auto
    have hd: "x = Done Fulfilled \<Longrightarrow> prev = PFulfilled"
      using Cons.prems(1) c by (cases prev) auto
    show ?thesis
      using ih hd c Suc by (auto simp: promise_fulfilled All_less_Suc2)
  qed
qed

lemma inv_empty: "inv emptyChain"
  by (simp add: inv_def emptyChain_def agree_empty ordered_empty)

lemma checkpoint_inv:
  assumes "agree (trace ch) (cells ch)" "ordered (trace ch)" "loose PFulfilled (cells ch)"
  shows "inv (fst (checkpoint start (ch, s)))"
proof -
  obtain cs' s' tr' where r: "react start PFulfilled 0 (cells ch) s (trace ch) = (cs', s', tr')"
    by (cases "react start PFulfilled 0 (cells ch) s (trace ch)")
  have "agree tr' ([] @ cs') \<and> ordered tr'"
    by (rule react_inv[where pre = "[]", OF _ assms(2) _ _ r]) (simp_all add: assms(1) tailp_def)
  moreover have "chained PFulfilled cs'"
    using react_chained[OF assms(3) r] .
  ultimately show ?thesis
    using r by (simp add: checkpoint_def inv_def)
qed

lemma step_inv:
  assumes "inv (fst cs)"
  shows "inv (fst (step start resume a cs))"
proof -
  obtain ch s where cs: "cs = (ch, s)" by (cases cs)
  from assms cs have a: "agree (trace ch) (cells ch)" and o: "ordered (trace ch)"
    and c: "chained PFulfilled (cells ch)" by (simp_all add: inv_def)
  show ?thesis
  proof (cases a)
    case (Push t)
    have "inv (fst (checkpoint start (pushTask t ch, s)))"
      by (rule checkpoint_inv) (simp_all add: pushTask_def agree_push a o loose_push c)
    with Push cs show ?thesis by simp
  next
    case (Handler f)
    with assms cs show ?thesis by simp
  next
    case (Settle i r)
    show ?thesis
    proof (cases "i < length (cells ch)")
      case False
      with Settle cs assms show ?thesis by (simp add: settle_def)
    next
      case True
      obtain t x where ci: "cells ch ! i = (t, x)" by (cases "cells ch ! i")
      show ?thesis
      proof (cases x)
        case (Running k)
        obtain res s' where rs: "resume r k s = (res, s')" by (cases "resume r k s")
        show ?thesis
        proof (cases res)
          case (Suspended k')
          have "inv (ch\<lparr>cells := (cells ch)[i := (t, Running k')]\<rparr>)"
            using agree_resume[OF a True, where k=k and t=t and k'=k'] chained_resume[OF c True, where t=t and k=k and k'=k'] o ci Running
            by (simp add: inv_def)
          with Settle cs True ci Running rs Suspended show ?thesis
            by (simp add: settle_def)
        next
          case (Returned out)
          let ?ch = "ch\<lparr>cells := (cells ch)[i := (t, Done out)], trace := trace ch @ [Settled i out]\<rparr>"
          have "inv (fst (checkpoint start (?ch, s')))"
          proof (rule checkpoint_inv)
            show "agree (trace ?ch) (cells ?ch)"
              using agree_finish[OF a True, where k=k and t=t and out=out] ci Running by simp
            show "ordered (trace ?ch)" using ordered_snoc_Settled[OF o] by simp
            show "loose PFulfilled (cells ?ch)"
              using loose_finish[OF c True, where t=t and k=k and out=out] ci Running by simp
          qed
          with Settle cs True ci Running rs Returned show ?thesis
            by (simp add: settle_def)
        qed
      qed (use Settle cs True ci assms in \<open>simp_all add: settle_def\<close>)
    qed
  qed
qed

lemma exec_inv: "inv (fst cs) \<Longrightarrow> inv (fst (exec start resume as cs))"
  by (induction as arbitrary: cs) (simp_all add: step_inv)


lemma exec_reachable:
  assumes "exec start resume acts (emptyChain, s) = (ch, s')"
  shows "inv ch"
  using exec_inv[of "(emptyChain, s)" start resume acts] assms inv_empty by simp

lemmas chain_eval = emptyChain_def newChatUI_def pushTask_def checkpoint_def settle_def call_def
  resetChatHistory_def appendMessage_def clearTags_def

section \<open>Claims about \<open>pushTask\<close>\<close>

text \<open>
  C1 (amended). The claim says that a task whose predecessor's promise rejected still
  runs. \<open>pushTask\<close> chains with \<open>lastEvent.then(task)\<close> and gives \<open>then\<close> no rejection
  handler, so a rejection travels down the chain and the tasks behind it are never called.
  What holds for every sequence of pushes, replies and handlers: a task in the queue has
  begun executing exactly when every task enqueued before it has fulfilled; in
  particular, once the promise of a task has rejected, no task enqueued after it ever
  begins.
\<close>

theorem pushTask_runs_iff_predecessors_fulfilled:
  assumes "exec start resume acts (emptyChain, s) = (ch, s')" and "j < length (cells ch)"
  shows "(Started j \<in> set (trace ch)) = (\<forall>i<j. Settled i Fulfilled \<in> set (trace ch))
    \<and> (\<forall>i<j. Settled i Rejected \<in> set (trace ch) \<longrightarrow> Started j \<notin> set (trace ch))"
proof -
  from exec_reachable[OF assms(1)]
  have a: "agree (trace ch) (cells ch)" and c: "chained PFulfilled (cells ch)"
    by (simp_all add: inv_def)
  have b: "begun (snd (cells ch ! j)) = (\<forall>i<j. snd (cells ch ! i) = Done Fulfilled)"
    using chained_begun[OF c assms(2)] by simp
  have s: "Started j \<in> set (trace ch) \<longleftrightarrow> begun (snd (cells ch ! j))"
    using a assms(2) by (simp add: agree_def)
  have f: "Settled i out \<in> set (trace ch) \<longleftrightarrow> snd (cells ch ! i) = Done out"
    if "i < j" for i out
    using a assms(2) that by (simp add: agree_def)
  have 1: "(Started j \<in> set (trace ch)) = (\<forall>i<j. Settled i Fulfilled \<in> set (trace ch))"
    using s b f by simp
  have 2: "\<forall>i<j. Settled i Rejected \<in> set (trace ch) \<longrightarrow> Started j \<notin> set (trace ch)"
    using s b f by auto
  from 1 2 show ?thesis by simp
qed

text \<open>
  Two resets, the first of which completes: the second task has begun, since its only
  predecessor fulfilled.
\<close>

theorem pushTask_runs_iff_predecessors_fulfilled_witness:
  "Started 1 \<in> set (trace (fst (exec start_task resume_task
      [Push ResetTask, Settle 0 Resolved, Push ResetTask] (emptyChain, newChatUI))))"
proof -
  let ?r = "exec start_task resume_task [Push ResetTask, Settle 0 Resolved, Push ResetTask]
      (emptyChain, newChatUI)"
  have h1: "?r = (fst ?r, snd ?r)" by simp
  have h2: "1 < length (cells (fst ?r))" by (simp add: chain_eval)
  have h3: "\<forall>i<1. Settled i Fulfilled \<in> set (trace (fst ?r))" by (simp add: chain_eval)
  from pushTask_runs_iff_predecessors_fulfilled[OF h1 h2] h3 show ?thesis by blast
qed

text \<open>
  The claim as stated fails: the reset task rejects because \<open>engine.resetChat\<close> does
  (the closure of \<open>onReset\<close> has no \<open>catch\<close>); the generate task and the reset task pushed
  after it are skipped, their bodies never start, and the input field is never read.
\<close>

theorem pushTask_rejected_predecessor_counterexample:
  "exec start_task resume_task
     [Push ResetTask, Settle 0 (Failed ''resetChat failed''), Push GenerateTask, Push ResetTask]
     (emptyChain, newChatUI\<lparr>uiChatInput := ''hello''\<rparr>)
   = (\<lparr>cells = [(ResetTask, Done Rejected), (GenerateTask, Skipped), (ResetTask, Skipped)],
        trace = [Started 0, Settled 0 Rejected]\<rparr>,
      newChatUI\<lparr>uiChatInput := ''hello'', engineCalls := [ResetChat]\<rparr>)"
  by (simp add: chain_eval)

text \<open>
  C2. For every sequence of tasks passed to \<open>pushTask\<close>, whatever the tasks do and whenever
  the promises they await settle, task \<open>n + 1\<close> never begins executing before the promise
  of task \<open>n\<close> has settled: in the trace of the queue, every start of task \<open>n + 1\<close> is
  preceded by a settlement of task \<open>n\<close>.
\<close>

theorem pushTask_sequential:
  assumes "exec start resume acts (emptyChain, s) = (ch, s')"
    and "trace ch = pre @ Started (Suc n) # post"
  shows "\<exists>out. Settled n out \<in> set pre"
proof -
  from exec_reachable[OF assms(1)] have "ordered (trace ch)" by (simp add: inv_def)
  with assms(2) show ?thesis unfolding ordered_def by blast
qed

theorem pushTask_sequential_witness:
  "trace (fst (exec start_task resume_task [Push ResetTask, Settle 0 Resolved, Push ResetTask]
      (emptyChain, newChatUI))) = [Started 0, Settled 0 Fulfilled] @ Started (Suc 0) # []
   \<and> (\<exists>out. Settled 0 out \<in> set [Started 0, Settled 0 Fulfilled])"
proof -
  let ?r = "exec start_task resume_task [Push ResetTask, Settle 0 Resolved, Push ResetTask]
      (emptyChain, newChatUI)"
  have h1: "?r = (fst ?r, snd ?r)" by simp
  have h2: "trace (fst ?r) = [Started 0, Settled 0 Fulfilled] @ Started (Suc 0) # []"
    by (simp add: chain_eval)
  from pushTask_sequential[OF h1 h2] h2 show ?thesis by blast
qed

section \<open>Facts about \<open>asyncGenerate\<close>\<close>

lemmas gen_defs = asyncGenerate_begin_def asyncGenerate_catch_def asyncGenerate_end_def
  unloadEngine_call_def unloadEngine_done_def appendMessage_def appendUserMessage_def
  updateLastMessage_def call_def showProgress_def enableChatInput_def maxMessages_def
  slice_last_def Let_def

lemma resume_suspended:
  "asyncGenerate_resume r k ui = (Suspended k', ui')
    \<Longrightarrow> chatHistory ui' = chatHistory ui \<and> requestInProgress ui' = requestInProgress ui
      \<and> (k = AwaitResetChat \<longleftrightarrow> k' = AwaitResetChat)"
  by (induction r k ui rule: asyncGenerate_resume.induct)
     (auto simp: gen_defs Let_def split: option.splits)

lemma resume_returned_history:
  "asyncGenerate_resume r k ui = (Returned out, ui')
    \<Longrightarrow> chatHistory ui' = chatHistory ui
      \<or> (\<exists>m. chatHistory ui' = chatHistory ui @ [\<lparr>role = Assistant, content = m\<rparr>])"
  by (induction r k ui rule: asyncGenerate_resume.induct)
     (auto simp: gen_defs Let_def split: option.splits)

lemma resume_fulfilled_flag:
  "asyncGenerate_resume r k ui = (Returned Fulfilled, ui') \<Longrightarrow> \<not> requestInProgress ui'"
  by (induction r k ui rule: asyncGenerate_resume.induct)
     (auto simp: gen_defs Let_def split: option.splits)

lemma resume_rejected:
  "asyncGenerate_resume r k ui = (Returned Rejected, ui') \<Longrightarrow> k = AwaitUnload \<and> ui' = ui"
  by (induction r k ui rule: asyncGenerate_resume.induct)
     (auto simp: gen_defs Let_def split: option.splits)

lemma feed_history:
  "feed rs k ui = (Returned out, ui')
    \<Longrightarrow> chatHistory ui' = chatHistory ui
      \<or> (\<exists>m. chatHistory ui' = chatHistory ui @ [\<lparr>role = Assistant, content = m\<rparr>])"
proof (induction rs arbitrary: k ui)
  case Nil
  then show ?case by simp
next
  case (Cons r rs)
  obtain st ui1 where s: "asyncGenerate_resume r k ui = (st, ui1)"
    by (cases "asyncGenerate_resume r k ui")
  show ?case
  proof (cases st)
    case (Suspended k1)
    with Cons.prems s have "feed rs k1 ui1 = (Returned out, ui')" by simp
    from Cons.IH[OF this] resume_suspended[OF s[unfolded Suspended]] show ?thesis by simp
  next
    case (Returned out1)
    with Cons.prems s have "out1 = out" "ui1 = ui'" by simp_all
    with resume_returned_history[of r k ui out ui'] s Returned show ?thesis by simp
  qed
qed

lemma feed_fulfilled_flag:
  "feed rs k ui = (Returned Fulfilled, ui') \<Longrightarrow> \<not> requestInProgress ui'"
proof (induction rs arbitrary: k ui)
  case Nil
  then show ?case by simp
next
  case (Cons r rs)
  obtain st ui1 where s: "asyncGenerate_resume r k ui = (st, ui1)"
    by (cases "asyncGenerate_resume r k ui")
  show ?case
  proof (cases st)
    case (Suspended k1)
    with Cons.prems s have "feed rs k1 ui1 = (Returned Fulfilled, ui')" by simp
    from Cons.IH[OF this] show ?thesis .
  next
    case (Returned out1)
    with Cons.prems s have "asyncGenerate_resume r k ui = (Returned Fulfilled, ui')" by simp
    then show ?thesis by (rule resume_fulfilled_flag)
  qed
qed

lemma feed_rejected_flag:
  "feed rs k ui = (Returned Rejected, ui') \<Longrightarrow> requestInProgress ui
    \<Longrightarrow> requestInProgress ui'"
proof (induction rs arbitrary: k ui)
  case Nil
  then show ?case by simp
next
  case (Cons r rs)
  obtain st ui1 where s: "asyncGenerate_resume r k ui = (st, ui1)"
    by (cases "asyncGenerate_resume r k ui")
  show ?case
  proof (cases st)
    case (Suspended k1)
    with Cons.prems s have f: "feed rs k1 ui1 = (Returned Rejected, ui')" by simp
    from resume_suspended[OF s[unfolded Suspended]] Cons.prems(2)
    have "requestInProgress ui1" by simp
    from Cons.IH[OF f this] show ?thesis .
  next
    case (Returned out1)
    with Cons.prems s have "asyncGenerate_resume r k ui = (Returned Rejected, ui')" by simp
    from resume_rejected[OF this] Cons.prems(2) show ?thesis by simp
  qed
qed

section \<open>Claims about \<open>asyncGenerate\<close>\<close>

text \<open>
  C10 (amended). An execution of \<open>asyncGenerate\<close> that ends, whatever the engine
  replied, ends with \<open>requestInProgress = false\<close> exactly when it returns: on the early
  return on an empty input (line 341), after the streamed completion, and on the error
  path once \<open>unloadEngine\<close> has completed (both through line 399). It ends with the flag
  still set when it is left by an exception, which happens when \<open>engine.unload()\<close>
  rejects inside the catch block.
\<close>

theorem asyncGenerate_clears_requestInProgress:
  assumes "asyncGenerate rs ui = (Returned out, ui')"
  shows "requestInProgress ui' \<longleftrightarrow> out = Rejected"
proof (cases "uiChatInput ui = []")
  case True
  with assms show ?thesis by (auto simp: asyncGenerate_def asyncGenerate_begin_def)
next
  case False
  then obtain ui0 where b: "asyncGenerate_begin ui = (Suspended AwaitCreate, ui0)"
    and f0: "requestInProgress ui0"
    by (simp add: asyncGenerate_begin_def Let_def appendMessage_def appendUserMessage_def
        call_def)
  with assms have f: "feed rs AwaitCreate ui0 = (Returned out, ui')"
    by (simp add: asyncGenerate_def)
  show ?thesis
  proof (cases out)
    case Fulfilled
    with f feed_fulfilled_flag[of rs AwaitCreate ui0 ui'] show ?thesis by simp
  next
    case Rejected
    with f feed_rejected_flag[of rs AwaitCreate ui0 ui'] f0 show ?thesis by simp
  qed
qed

text \<open>The three paths: a streamed completion, a failed \<open>create\<close>, an empty input.\<close>

theorem asyncGenerate_clears_requestInProgress_witness:
  "\<not> requestInProgress (snd (asyncGenerate
        [Resolved, Chunk (Some ''Hello'') None, StreamEnd, Message ''Hello'']
        (newChatUI\<lparr>uiChatInput := ''hi''\<rparr>)))
   \<and> \<not> requestInProgress (snd (asyncGenerate [Failed ''TypeError'', Resolved]
        (newChatUI\<lparr>uiChatInput := ''hi''\<rparr>)))
   \<and> \<not> requestInProgress (snd (asyncGenerate [] newChatUI))"
proof -
  let ?a = "asyncGenerate [Resolved, Chunk (Some ''Hello'') None, StreamEnd, Message ''Hello'']
        (newChatUI\<lparr>uiChatInput := ''hi''\<rparr>)"
  let ?b = "asyncGenerate [Failed ''TypeError'', Resolved] (newChatUI\<lparr>uiChatInput := ''hi''\<rparr>)"
  let ?c = "asyncGenerate [] newChatUI"
  have a: "?a = (Returned Fulfilled, snd ?a)"
    by (simp add: asyncGenerate_def gen_defs newChatUI_def)
  have b: "?b = (Returned Fulfilled, snd ?b)"
    by (simp add: asyncGenerate_def gen_defs newChatUI_def)
  have c: "?c = (Returned Fulfilled, snd ?c)"
    by (simp add: asyncGenerate_def gen_defs newChatUI_def)
  from asyncGenerate_clears_requestInProgress[OF a]
    asyncGenerate_clears_requestInProgress[OF b]
    asyncGenerate_clears_requestInProgress[OF c]
  show ?thesis by simp
qed

text \<open>
  The claim as stated fails on the execution in which \<open>completions.create\<close> rejects and
  then \<open>engine.unload()\<close>, awaited inside the catch block (lines 393--397), rejects too:
  the exception leaves \<open>asyncGenerate\<close>, lines 398--399 are not reached, and the execution
  has ended with the flag set.
\<close>

theorem asyncGenerate_unload_rejects_counterexample:
  "fst (asyncGenerate [Failed ''TypeError'', Failed ''device lost'']
          (newChatUI\<lparr>uiChatInput := ''hi''\<rparr>)) = Returned Rejected
   \<and> requestInProgress (snd (asyncGenerate [Failed ''TypeError'', Failed ''device lost'']
          (newChatUI\<lparr>uiChatInput := ''hi''\<rparr>)))"
  by (simp add: asyncGenerate_def gen_defs newChatUI_def)

subsection \<open>The sliding window\<close>

lemma begin_prompt:
  assumes "uiChatInput ui \<noteq> []"
  shows "\<exists>ui0. asyncGenerate_begin ui = (Suspended AwaitCreate, ui0)
    \<and> chatHistory ui0 = slice_last maxMessages (chatHistory ui @ [\<lparr>role = User, content = uiChatInput ui\<rparr>])
    \<and> engineCalls ui0 = engineCalls ui @ [CompletionsCreate (chatHistory ui0)]"
  using assms by (simp add: gen_defs Let_def)

lemma slice_last_suffix: "suffix (slice_last n xs) xs"
  by (simp add: slice_last_def suffix_drop)

lemma slice_last_length: "length (slice_last n xs) = min n (length xs)"
  by (simp add: slice_last_def)

text \<open>
  C3 (amended). The claim bounds \<open>chatHistory\<close> by 4 after a generate operation. The
  window is applied at lines 353--355, between the push of the user turn and the request
  to the engine; the assistant turn is pushed at line 392 with no truncation after it.
  What holds when a generate operation has ended (returned or thrown), for a history that
  had at most 5 turns and was a suffix of the turn sequence \<open>turns\<close>: the history has at
  most 5 turns; it is a suffix of \<open>turns\<close> extended by the turns \<open>new\<close> that this operation
  pushed (none for an empty input, the user turn, or the user turn and the assistant
  turn), and retains all of \<open>new\<close>; and the history sent to the engine has at most 4 turns.
\<close>

theorem asyncGenerate_history_window:
  assumes "asyncGenerate rs ui = (Returned out, ui')"
    and "suffix (chatHistory ui) turns"
    and "length (chatHistory ui) \<le> 5"
  shows "length (chatHistory ui') \<le> 5
    \<and> (\<exists>new. (new = [] \<and> uiChatInput ui = []
            \<or> new = [\<lparr>role = User, content = uiChatInput ui\<rparr>]
            \<or> (\<exists>m. new = [\<lparr>role = User, content = uiChatInput ui\<rparr>,
                            \<lparr>role = Assistant, content = m\<rparr>]))
         \<and> suffix (chatHistory ui') (turns @ new)
         \<and> length new \<le> length (chatHistory ui'))
    \<and> (uiChatInput ui = []
         \<or> length (chatHistory (snd (asyncGenerate_begin ui))) \<le> 4
           \<and> engineCalls (snd (asyncGenerate_begin ui))
               = engineCalls ui @ [CompletionsCreate (chatHistory (snd (asyncGenerate_begin ui)))])"
proof (cases "uiChatInput ui = []")
  case True
  with assms(1) have "chatHistory ui' = chatHistory ui"
    by (auto simp: asyncGenerate_def asyncGenerate_begin_def)
  with assms(2,3) True show ?thesis by auto
next
  case False
  let ?u = "\<lparr>role = User, content = uiChatInput ui\<rparr>"
  from begin_prompt[OF False] obtain ui0 where
    b: "asyncGenerate_begin ui = (Suspended AwaitCreate, ui0)"
    and h0: "chatHistory ui0 = slice_last maxMessages (chatHistory ui @ [?u])"
    and e0: "engineCalls ui0 = engineCalls ui @ [CompletionsCreate (chatHistory ui0)]"
    by blast
  have l0: "length (chatHistory ui0) \<le> 4" "1 \<le> length (chatHistory ui0)"
    using h0 by (simp_all add: slice_last_length maxMessages_def)
  have "suffix (chatHistory ui @ [?u]) (turns @ [?u])" using assms(2) by simp
  with slice_last_suffix[of maxMessages "chatHistory ui @ [?u]"] h0
  have s0: "suffix (chatHistory ui0) (turns @ [?u])"
    using suffix_order.trans by fastforce
  from assms(1) b have f: "feed rs AwaitCreate ui0 = (Returned out, ui')"
    by (simp add: asyncGenerate_def)
  from feed_history[OF f] show ?thesis
  proof
    assume eq: "chatHistory ui' = chatHistory ui0"
    have "suffix (chatHistory ui') (turns @ [?u]) \<and> length [?u] \<le> length (chatHistory ui')"
      using eq s0 l0 by simp
    then show ?thesis using eq l0 b e0 False by auto
  next
    assume "\<exists>m. chatHistory ui' = chatHistory ui0 @ [\<lparr>role = Assistant, content = m\<rparr>]"
    then obtain m where eq: "chatHistory ui' = chatHistory ui0 @ [\<lparr>role = Assistant, content = m\<rparr>]"
      by blast
    have "suffix (chatHistory ui') (turns @ [?u, \<lparr>role = Assistant, content = m\<rparr>])"
      using eq s0 by (metis append.assoc append_Cons append_Nil same_suffix_suffix)
    moreover have "length [?u, \<lparr>role = Assistant, content = m\<rparr>] \<le> length (chatHistory ui')"
      using eq l0 by simp
    ultimately show ?thesis using eq l0 b e0 False by auto
  qed
qed

text \<open>The first exchange of a session.\<close>

theorem asyncGenerate_history_window_witness:
  "length (chatHistory (snd (asyncGenerate [Resolved, StreamEnd, Message ''A'']
      (newChatUI\<lparr>uiChatInput := ''q''\<rparr>)))) \<le> 5"
proof -
  let ?ui = "newChatUI\<lparr>uiChatInput := ''q''\<rparr>"
  let ?a = "asyncGenerate [Resolved, StreamEnd, Message ''A''] ?ui"
  have h1: "?a = (Returned Fulfilled, snd ?a)"
    by (simp add: asyncGenerate_def gen_defs newChatUI_def)
  have h2: "suffix (chatHistory ?ui) []" by (simp add: newChatUI_def)
  have h3: "length (chatHistory ?ui) \<le> 5" by (simp add: newChatUI_def)
  from asyncGenerate_history_window[OF h1 h2 h3] show ?thesis by blast
qed

text \<open>
  The claim as stated fails at the third completed exchange: the history is cut to
  \<open>[a1, q2, a2, q3]\<close> before the request and \<open>a3\<close> is pushed onto it.
\<close>

theorem chatHistory_window_counterexample:
  "chatHistory (snd (run
      [TypeInput ''q1'', Send, Reply Resolved, Reply StreamEnd, Reply (Message ''a1''),
       TypeInput ''q2'', Send, Reply Resolved, Reply StreamEnd, Reply (Message ''a2''),
       TypeInput ''q3'', Send, Reply Resolved, Reply StreamEnd, Reply (Message ''a3'')]
      newSession))
   = [\<lparr>role = Assistant, content = ''a1''\<rparr>,
      \<lparr>role = User, content = ''q2''\<rparr>, \<lparr>role = Assistant, content = ''a2''\<rparr>,
      \<lparr>role = User, content = ''q3''\<rparr>, \<lparr>role = Assistant, content = ''a3''\<rparr>]
   \<and> \<not> length (chatHistory (snd (run
      [TypeInput ''q1'', Send, Reply Resolved, Reply StreamEnd, Reply (Message ''a1''),
       TypeInput ''q2'', Send, Reply Resolved, Reply StreamEnd, Reply (Message ''a2''),
       TypeInput ''q3'', Send, Reply Resolved, Reply StreamEnd, Reply (Message ''a3'')]
      newSession))) \<le> 4"
  by (simp add: newSession_def onGenerate_def chain_eval gen_defs)

subsection \<open>The empty input\<close>

lemma flag_already_clear:
  "\<not> requestInProgress ui \<Longrightarrow> ui\<lparr>requestInProgress := False\<rparr> = ui"
  by (cases ui) simp

text \<open>
  C9. When the generate task runs with an empty input field it returns at once: no
  message is appended to the chat box, \<open>chatHistory\<close> is not changed, the engine is not
  called, and \<open>requestInProgress\<close> is \<open>false\<close> afterwards, as it was when \<open>onGenerate\<close>
  enqueued the task: the state after the task is the state before it with
  \<open>requestInProgress := false\<close>, so nothing at all changes when the flag was clear.
\<close>

theorem asyncGenerate_empty_prompt_noop:
  assumes "uiChatInput ui = []"
  shows "\<exists>ui'. asyncGenerate rs ui = (Returned Fulfilled, ui')
    \<and> start_task GenerateTask ui = (Returned Fulfilled, ui')
    \<and> ui' = ui\<lparr>requestInProgress := False\<rparr>
    \<and> uiChat ui' = uiChat ui \<and> chatHistory ui' = chatHistory ui
    \<and> engineCalls ui' = engineCalls ui
    \<and> requestInProgress ui' = False
    \<and> (requestInProgress ui \<or> ui' = ui)"
proof -
  have "requestInProgress ui \<or> ui\<lparr>requestInProgress := False\<rparr> = ui"
    using flag_already_clear by blast
  with assms show ?thesis
    by (simp add: asyncGenerate_def asyncGenerate_begin_def uiChat_def)
qed

theorem asyncGenerate_empty_prompt_noop_witness:
  "asyncGenerate [] newChatUI = (Returned Fulfilled, newChatUI)"
proof -
  have e: "uiChatInput newChatUI = []" by (simp add: newChatUI_def)
  have f: "\<not> requestInProgress newChatUI" by (simp add: newChatUI_def)
  from asyncGenerate_empty_prompt_noop[OF e, of "[]"] f show ?thesis by auto
qed

subsection \<open>Errors during a generation\<close>

lemma flush_last_insert:
  "rendering ui = ops @ [Insert k t]
    \<Longrightarrow> last (uiChat (flush ui)) = \<lparr>kind = k, msgText = [t]\<rparr>"
  by (simp add: flush_def uiChat_def)

text \<open>
  C8 (amended). An error thrown during a generation, at whichever await of the try block
  (\<open>completions.create\<close>, a chunk of the stream, \<open>getMessage\<close>) and in whatever state,
  renders a danger message that contains the error text, the last block of the chat box
  once the renders in flight have landed, and calls \<open>engine.unload()\<close> unconditionally.
  When that call resolves, in whatever state \<open>u\<close> the session then is, the session is
  unloaded (\<open>chatLoaded = false\<close>), the input, send and reset controls are disabled, the
  download button is enabled and \<open>requestInProgress\<close> is false, so the models must be
  loaded again before a retry.
\<close>

theorem generation_error_unloads_engine:
  assumes "k = AwaitCreate \<or> k = AwaitChunk curMessage usage \<or> k = AwaitGetMessage"
  shows "asyncGenerate_resume (Failed e) k ui =
      (Suspended AwaitUnload,
       ui\<lparr>rendering := rendering ui @ [Insert ''danger'' (''Generate error, '' @ e)],
          engineCalls := engineCalls ui @ [Unload]\<rparr>)
    \<and> last (uiChat (flush (snd (asyncGenerate_resume (Failed e) k ui))))
        = \<lparr>kind = ''danger'', msgText = [''Generate error, '' @ e]\<rparr>
    \<and> (\<exists>u'. asyncGenerate_resume Resolved AwaitUnload u = (Returned Fulfilled, u')
          \<and> \<not> chatLoaded u' \<and> \<not> chatInputEnabled u' \<and> downloadEnabled u'
          \<and> \<not> progressShown u' \<and> \<not> requestInProgress u'
          \<and> chatHistory u' = chatHistory u \<and> engineCalls u' = engineCalls u
          \<and> rendering u' = rendering u
              @ [Insert ''info'' ''Engine unloaded. You can download models again and retry.''])"
proof -
  have 1: "asyncGenerate_resume (Failed e) k ui =
      (Suspended AwaitUnload,
       ui\<lparr>rendering := rendering ui @ [Insert ''danger'' (''Generate error, '' @ e)],
          engineCalls := engineCalls ui @ [Unload]\<rparr>)"
    using assms by (auto simp: gen_defs)
  have 2: "last (uiChat (flush (snd (asyncGenerate_resume (Failed e) k ui))))
        = \<lparr>kind = ''danger'', msgText = [''Generate error, '' @ e]\<rparr>"
    unfolding 1 by (rule flush_last_insert[where ops = "rendering ui"]) simp
  have 3: "\<exists>u'. asyncGenerate_resume Resolved AwaitUnload u = (Returned Fulfilled, u')
          \<and> \<not> chatLoaded u' \<and> \<not> chatInputEnabled u' \<and> downloadEnabled u'
          \<and> \<not> progressShown u' \<and> \<not> requestInProgress u'
          \<and> chatHistory u' = chatHistory u \<and> engineCalls u' = engineCalls u
          \<and> rendering u' = rendering u
              @ [Insert ''info'' ''Engine unloaded. You can download models again and retry.'']"
    by (simp add: gen_defs)
  from 1 2 3 show ?thesis by blast
qed

text \<open>The stream fails after a first chunk, and the engine unloads.\<close>

theorem generation_error_unloads_engine_witness:
  "\<not> chatLoaded (snd (asyncGenerate_resume Resolved AwaitUnload
      (snd (asyncGenerate_resume (Failed ''network error'') (AwaitChunk ''Hel'' None)
         (newChatUI\<lparr>chatLoaded := True, requestInProgress := True\<rparr>)))))"
proof -
  have "AwaitChunk ''Hel'' None = AwaitCreate \<or> AwaitChunk ''Hel'' None = AwaitChunk ''Hel'' None
    \<or> AwaitChunk ''Hel'' None = AwaitGetMessage" by simp
  from generation_error_unloads_engine[OF this, of "''network error''"
      "newChatUI\<lparr>chatLoaded := True, requestInProgress := True\<rparr>"
      "snd (asyncGenerate_resume (Failed ''network error'') (AwaitChunk ''Hel'' None)
         (newChatUI\<lparr>chatLoaded := True, requestInProgress := True\<rparr>))"]
  show ?thesis by auto
qed

text \<open>
  The claim as stated fails when \<open>engine.unload()\<close> rejects: \<open>unloadEngine\<close> awaits it
  first (line 246), so lines 247--251 are not reached. The stream fails after a first
  chunk in a loaded session and the unload rejects: the generation has ended, and the
  session is still loaded, its controls enabled and its download button disabled.
\<close>

theorem generation_error_unload_rejects_counterexample:
  "fst (feed [Failed ''network error'', Failed ''device lost''] (AwaitChunk ''Hel'' None)
          (newChatUI\<lparr>chatLoaded := True, requestInProgress := True, downloadEnabled := False\<rparr>))
     = Returned Rejected
   \<and> chatLoaded (snd (feed [Failed ''network error'', Failed ''device lost'']
          (AwaitChunk ''Hel'' None)
          (newChatUI\<lparr>chatLoaded := True, requestInProgress := True, downloadEnabled := False\<rparr>)))
   \<and> chatInputEnabled (snd (feed [Failed ''network error'', Failed ''device lost'']
          (AwaitChunk ''Hel'' None)
          (newChatUI\<lparr>chatLoaded := True, requestInProgress := True, downloadEnabled := False\<rparr>)))
   \<and> \<not> downloadEnabled (snd (feed [Failed ''network error'', Failed ''device lost'']
          (AwaitChunk ''Hel'' None)
          (newChatUI\<lparr>chatLoaded := True, requestInProgress := True, downloadEnabled := False\<rparr>)))"
  by (simp add: gen_defs newChatUI_def)

section \<open>Claims about the device-capability probe\<close>

text \<open>
  C5. After a successful probe, \<open>restrictModels\<close> is true exactly when the buffer-binding
  size is at most \<open>2^27\<close> (\<open>1 << 27\<close>, the boundary included) or the vendor is
  \<open>qualcomm\<close> or \<open>arm\<close>.
\<close>

theorem device_restriction_flag:
  "fst (deviceProbe (Inr (bindingSize, vendor)) ui)
     \<longleftrightarrow> bindingSize \<le> 2 ^ 27 \<or> vendor \<in> {''qualcomm'', ''arm''}"
  by (auto simp: deviceProbe_def deviceProbe_settle_def androidMaxStorageBufferBindingSize_def
      mobileVendors_def Let_def)

text \<open>The boundary, the value after it, and both vendors with a large buffer.\<close>

theorem device_restriction_flag_witness:
  "fst (deviceProbe (Inr (134217728, ''nvidia'')) newChatUI)
   \<and> \<not> fst (deviceProbe (Inr (134217729, ''nvidia'')) newChatUI)
   \<and> fst (deviceProbe (Inr (1073741824, ''qualcomm'')) newChatUI)
   \<and> fst (deviceProbe (Inr (1073741824, ''arm'')) newChatUI)"
  using device_restriction_flag[of 134217728 "''nvidia''" newChatUI]
    device_restriction_flag[of 134217729 "''nvidia''" newChatUI]
    device_restriction_flag[of 1073741824 "''qualcomm''" newChatUI]
    device_restriction_flag[of 1073741824 "''arm''" newChatUI]
  by simp

lemma deviceProbe_settle_failure:
  "deviceProbe_settle (Inl err) ui =
     (True,
      updateLastMessage ''info''
        ''Your device seems to have limited resources, so we restrict the selectable models.''
        True (appendMessage ''danger'' (''Error reading GPU-vendor '' @ err) ui))"
  by (simp add: deviceProbe_settle_def androidMaxStorageBufferBindingSize_def)

text \<open>
  C4 fails as stated: when the probe throws, the size keeps its initial value \<open>0\<close>,
  which passes the test \<open>maxStorageBufferBindingSize <= androidMaxStorageBufferBindingSize\<close>
  of line 183, and \<open>restrictModels\<close> becomes true.
\<close>

theorem probe_failure_counterexample:
  "fst (deviceProbe (Inl ''Error: no adapter'') newChatUI) = True"
  by (simp add: deviceProbe_def deviceProbe_settle_failure)

lemma last_of_kind_less: "last_of_kind k bs = Some i \<Longrightarrow> i < length bs"
  by (induction bs arbitrary: i) (auto split: option.splits if_splits)

lemma updateLastMessage_writes:
  "\<exists>ws. rendering (updateLastMessage k t b u) = rendering u @ ws
     \<and> (\<forall>op\<in>set ws. \<exists>i t b. op = Write i t b \<and> i < length (blocks u))"
  by (auto simp: updateLastMessage_def last_of_kind_less split: option.splits)

lemma updateLastMessage_fields [simp]:
  "blocks (updateLastMessage k t b u) = blocks u"
  "chatLoaded (updateLastMessage k t b u) = chatLoaded u"
  "requestInProgress (updateLastMessage k t b u) = requestInProgress u"
  "chatInputEnabled (updateLastMessage k t b u) = chatInputEnabled u"
  "chatHistory (updateLastMessage k t b u) = chatHistory u"
  "engineCalls (updateLastMessage k t b u) = engineCalls u"
  by (simp_all add: updateLastMessage_def split: option.splits)

lemma flush_fields [simp]:
  "chatLoaded (flush u) = chatLoaded u"
  "requestInProgress (flush u) = requestInProgress u"
  "chatInputEnabled (flush u) = chatInputEnabled u"
  "chatHistory (flush u) = chatHistory u"
  "engineCalls (flush u) = engineCalls u"
  "rendering (flush u) = []"
  by (simp_all add: flush_def)

lemma writes_keep_last:
  "\<forall>op\<in>set ws. \<exists>i t b. op = Write i t b \<and> i < length bs
    \<Longrightarrow> \<exists>bs'. length bs' = length bs \<and> fold render_op ws (bs @ [x]) = bs' @ [x]"
proof (induction ws arbitrary: bs)
  case Nil
  then show ?case by simp
next
  case (Cons op ws)
  from Cons.prems obtain i t b where op: "op = Write i t b" and i: "i < length bs" by auto
  let ?bs = "bs[i := (fst (bs ! i),
      (snd (bs ! i))\<lparr>msgText := (if b then msgText (snd (bs ! i)) @ [t] else [t])\<rparr>)]"
  have step: "render_op op (bs @ [x]) = ?bs @ [x]"
    using op i by (simp add: nth_append list_update_append1)
  have "\<forall>op\<in>set ws. \<exists>i t b. op = Write i t b \<and> i < length ?bs"
    using Cons.prems by simp
  from Cons.IH[OF this] step show ?case by auto
qed

lemma updateLastMessage_pending:
  assumes "\<exists>ws. rendering u = d # ws
      \<and> (\<forall>op\<in>set ws. \<exists>i t b. op = Write i t b \<and> i < n) \<and> length (blocks u) = n"
  shows "\<exists>ws. rendering (updateLastMessage k t b u) = d # ws
      \<and> (\<forall>op\<in>set ws. \<exists>i t b. op = Write i t b \<and> i < n)
      \<and> length (blocks (updateLastMessage k t b u)) = n"
proof -
  from assms obtain ws where u: "rendering u = d # ws"
    "\<forall>op\<in>set ws. \<exists>i t b. op = Write i t b \<and> i < n" "length (blocks u) = n" by blast
  from updateLastMessage_writes[of k t b u] obtain ws' where
    w: "rendering (updateLastMessage k t b u) = rendering u @ ws'"
    "\<forall>op\<in>set ws'. \<exists>i t b. op = Write i t b \<and> i < length (blocks u)" by blast
  have "rendering (updateLastMessage k t b u) = d # (ws @ ws')" using u(1) w(1) by simp
  moreover have "\<forall>op\<in>set (ws @ ws'). \<exists>i t b. op = Write i t b \<and> i < n"
    using u(2) w(2) u(3) by auto
  moreover have "length (blocks (updateLastMessage k t b u)) = n" using u(3) by simp
  ultimately show ?thesis by blast
qed

lemma probe_failure_end:
  assumes "rendering w = []"
  shows "\<exists>ws. rendering (initChatUI_end (snd (deviceProbe_settle (Inl err) w)))
        = Insert ''danger'' (''Error reading GPU-vendor '' @ err) # ws
      \<and> (\<forall>op\<in>set ws. \<exists>i t b. op = Write i t b \<and> i < length (blocks w))"
proof -
  define d where "d = Insert ''danger'' (''Error reading GPU-vendor '' @ err)"
  define a where "a = appendMessage ''danger'' (''Error reading GPU-vendor '' @ err) w"
  define b where "b = updateLastMessage ''info''
        ''Your device seems to have limited resources, so we restrict the selectable models.''
        True a"
  define c where "c = updateLastMessage ''info''
        ([CHR 0x0A, CHR 0x0A] @ ''Chat assistant is ready'') True b"
  define z where "z = updateLastMessage ''warning''
        ([CHR 0x0A, CHR 0x0A] @ ''All models loaded and engine initialized.'') True c"
  have "rendering a = d # [] \<and> (\<forall>op\<in>set []. \<exists>i t b. op = Write i t b \<and> i < length (blocks w))
      \<and> length (blocks a) = length (blocks w)"
    using assms by (simp add: a_def d_def appendMessage_def)
  then have "\<exists>ws. rendering a = d # ws
      \<and> (\<forall>op\<in>set ws. \<exists>i t b. op = Write i t b \<and> i < length (blocks w))
      \<and> length (blocks a) = length (blocks w)" by blast
  then have "\<exists>ws. rendering b = d # ws
      \<and> (\<forall>op\<in>set ws. \<exists>i t b. op = Write i t b \<and> i < length (blocks w))
      \<and> length (blocks b) = length (blocks w)"
    unfolding b_def by (rule updateLastMessage_pending)
  then have "\<exists>ws. rendering c = d # ws
      \<and> (\<forall>op\<in>set ws. \<exists>i t b. op = Write i t b \<and> i < length (blocks w))
      \<and> length (blocks c) = length (blocks w)"
    unfolding c_def by (rule updateLastMessage_pending)
  then have "\<exists>ws. rendering z = d # ws
      \<and> (\<forall>op\<in>set ws. \<exists>i t b. op = Write i t b \<and> i < length (blocks w))
      \<and> length (blocks z) = length (blocks w)"
    unfolding z_def by (rule updateLastMessage_pending)
  moreover have "rendering (initChatUI_end (snd (deviceProbe_settle (Inl err) w))) = rendering z"
    by (simp add: initChatUI_end_def deviceProbe_settle_failure Let_def enableChatInput_def
        showProgress_def z_def c_def b_def a_def)
  ultimately show ?thesis unfolding d_def by metis
qed

lemma probe_failure_load:
  assumes "engineFailure env = None" and "storeFailure env = None" and "probed env = Inl err"
    and "progressReports env = []"
  shows "chatLoaded (load_to_end (LoadEngine, env) u)
    \<and> \<not> requestInProgress (load_to_end (LoadEngine, env) u)
    \<and> chatInputEnabled (load_to_end (LoadEngine, env) u)
    \<and> \<lparr>kind = ''danger'', msgText = [''Error reading GPU-vendor '' @ err]\<rparr>
        \<in> set (uiChat (load_to_end (LoadEngine, env) u))"
proof -
  let ?u2 = "appendMessage ''info'' ''Create vector store from product data. Standby...'' (flush u)"
  let ?u3 = "deviceProbe_call
            (updateLastMessage ''info''
               ('' Vector store created. '' @ decimal (valuesLength env)
                  @ '' JSON-documents added to the store.'') False (flush ?u2))"
  let ?w = "flush ?u3"
  let ?z = "initChatUI_end (snd (deviceProbe_settle (Inl err) ?w))"
  have e: "load_to_end (LoadEngine, env) u = flush ?z"
    using assms
    by (simp add: load_to_end.simps[of "(LoadEngine, env)"] load_to_end.simps[of "(LoadStore, env)"]
        load_to_end.simps[of "(LoadProbe, env)"])
  have f: "chatLoaded ?z \<and> \<not> requestInProgress ?z \<and> chatInputEnabled ?z"
    by (simp add: initChatUI_end_def Let_def enableChatInput_def showProgress_def)
  have bz: "blocks ?z = blocks ?w"
    by (simp add: initChatUI_end_def Let_def enableChatInput_def showProgress_def
        deviceProbe_settle_failure appendMessage_def)
  from probe_failure_end[of ?w err] obtain ws where
    r: "rendering ?z = Insert ''danger'' (''Error reading GPU-vendor '' @ err) # ws"
    and ws: "\<forall>op\<in>set ws. \<exists>i t b. op = Write i t b \<and> i < length (blocks ?w)"
    by auto
  from writes_keep_last[OF ws, of "(True, \<lparr>kind = ''danger'', msgText = [''Error reading GPU-vendor '' @ err]\<rparr>)"]
  obtain bs' where "fold render_op ws
      (blocks ?w @ [(True, \<lparr>kind = ''danger'', msgText = [''Error reading GPU-vendor '' @ err]\<rparr>)])
      = bs' @ [(True, \<lparr>kind = ''danger'', msgText = [''Error reading GPU-vendor '' @ err]\<rparr>)]"
    by auto
  then have "blocks (flush ?z)
      = bs' @ [(True, \<lparr>kind = ''danger'', msgText = [''Error reading GPU-vendor '' @ err]\<rparr>)]"
    using r bz by (simp add: flush_def)
  then have "\<lparr>kind = ''danger'', msgText = [''Error reading GPU-vendor '' @ err]\<rparr>
      \<in> set (uiChat (flush ?z))"
    by (simp add: uiChat_def)
  with e f show ?thesis by simp
qed

text \<open>The progress reports of the engine change nothing of what follows them.\<close>

lemma load_reports:
  "\<exists>u'. load_to_end (LoadEngine, env) u
       = load_to_end (LoadEngine, env\<lparr>progressReports := []\<rparr>) u'"
proof (induction "progressReports env" arbitrary: env u)
  case Nil
  then have "env\<lparr>progressReports := []\<rparr> = env" by simp
  then show ?case by auto
next
  case (Cons t ts)
  let ?env = "env\<lparr>progressReports := ts\<rparr>"
  have "ts = progressReports ?env" by simp
  from Cons.hyps(1)[OF this] obtain u' where
    "load_to_end (LoadEngine, ?env) (initProgressCallback t (flush u))
       = load_to_end (LoadEngine, ?env\<lparr>progressReports := []\<rparr>) u'" by blast
  moreover have "load_to_end (LoadEngine, env) u
      = load_to_end (LoadEngine, ?env) (initProgressCallback t (flush u))"
    using Cons.hyps(2)[symmetric] by (simp add: load_to_end.simps[of "(LoadEngine, env)"])
  ultimately show ?case by auto
qed

text \<open>
  C4 (amended). If the probe throws, the failure is not fatal: a danger message with the
  error is in the chat box, loading continues to its end (\<open>chatLoaded = true\<close>,
  \<open>requestInProgress = false\<close>, the chat input enabled), and \<open>restrictModels\<close> is true.
\<close>

theorem probe_failure_nonfatal:
  assumes "\<not> chatLoaded ui" and "engineFailure env = None" and "storeFailure env = None"
    and "probed env = Inl err"
  shows "chatLoaded (initChatUI env ui) \<and> \<not> requestInProgress (initChatUI env ui)
    \<and> chatInputEnabled (initChatUI env ui)
    \<and> \<lparr>kind = ''danger'', msgText = [''Error reading GPU-vendor '' @ err]\<rparr>
        \<in> set (uiChat (initChatUI env ui))
    \<and> fst (deviceProbe (probed env) ui0) = True"
proof -
  let ?env = "env\<lparr>progressReports := []\<rparr>"
  from load_reports[of env "ui\<lparr>requestInProgress := True\<rparr>"] obtain u' where
    "load_to_end (LoadEngine, env) (ui\<lparr>requestInProgress := True\<rparr>)
       = load_to_end (LoadEngine, ?env) u'" by blast
  with assms(1) have e: "initChatUI env ui = load_to_end (LoadEngine, ?env) u'"
    by (simp add: initChatUI_def initChatUI_begin_def)
  have "engineFailure ?env = None" "storeFailure ?env = None" "probed ?env = Inl err"
    "progressReports ?env = []"
    using assms by simp_all
  from probe_failure_load[OF this, of u'] e assms(4) show ?thesis
    by (simp add: deviceProbe_def deviceProbe_settle_failure)
qed

text \<open>A load with one progress report whose probe finds no adapter.\<close>

theorem probe_failure_nonfatal_witness:
  "chatLoaded (initChatUI \<lparr>progressReports = [''Loading 50%''], engineFailure = None,
     valuesLength = 30, storeFailure = None, probed = Inl ''Error: no adapter''\<rparr> newChatUI)"
proof -
  let ?env = "\<lparr>progressReports = [''Loading 50%''], engineFailure = None,
     valuesLength = 30, storeFailure = None, probed = Inl ''Error: no adapter''\<rparr>"
  have 1: "\<not> chatLoaded newChatUI" by (simp add: newChatUI_def)
  have 2: "engineFailure ?env = None" by simp
  have 3: "storeFailure ?env = None" by simp
  have 4: "probed ?env = Inl ''Error: no adapter''" by simp
  from probe_failure_nonfatal[OF 1 2 3 4] show ?thesis by blast
qed

section \<open>Claims about the handlers\<close>




lemma ui_step_inv: "inv (fst se) \<Longrightarrow> inv (fst (ui_step e se))"
proof -
  assume i: "inv (fst se)"
  obtain ch ui where se: "se = (ch, ui)" by (cases se)
  show ?thesis
  proof (cases e)
    case Send
    from step_inv[of "(ch, ui)" start_task resume_task "Push GenerateTask"] i se Send
    show ?thesis by (simp add: onGenerate_def)
  next
    case Reset
    from step_inv[of "(ch, if requestInProgress ui then call InterruptGenerate ui else ui)"
        start_task resume_task "Push ResetTask"] i se Reset
    show ?thesis by (simp add: onReset_def)
  next
    case (Reply r)
    show ?thesis
    proof (cases "running_index (cells ch)")
      case None
      with i se Reply show ?thesis by simp
    next
      case (Some n)
      from step_inv[of "(ch, ui)" start_task resume_task "Settle n r"] i se Reply Some
      show ?thesis by simp
    qed
  qed (use i se in simp_all)
qed

lemma run_inv: "inv (fst se) \<Longrightarrow> inv (fst (run es se))"
  by (induction es arbitrary: se) (simp_all add: ui_step_inv)

text \<open>In every state that a session reaches, each task has reacted to its predecessor.\<close>

lemma run_chained:
  assumes "run es newSession = (ch, ui)"
  shows "chained PFulfilled (cells ch)"
proof -
  have "inv (fst newSession)" using inv_empty by (simp add: newSession_def)
  from run_inv[OF this, of es] assms show ?thesis by (simp add: inv_def)
qed




text \<open>
  Nor is the flag set for as long as the body of a generate task executes: a load
  (\<open>initChatUI\<close>) started while a generation awaits \<open>completions.create\<close> clears the flag
  when it ends, and the next send enqueues a second generate task behind the first.
\<close>

lemma load_clears_flag_during_generation:
  "cells (fst (run [TypeInput ''hi'', Send,
        Download \<lparr>progressReports = [], engineFailure = None, valuesLength = 30,
                  storeFailure = None, probed = Inr (1073741824, ''nvidia'')\<rparr>,
        LoadStep 0, LoadStep 0, LoadStep 0, Send] newSession))
     = [(GenerateTask, Running AwaitCreate), (GenerateTask, Waiting)]"
  by (simp add: newSession_def onGenerate_def chain_eval gen_defs onDownload_click_def
      initChatUI_begin_def initChatUI_end_def deviceProbe_call_def deviceProbe_settle_def
      androidMaxStorageBufferBindingSize_def mobileVendors_def)

subsection \<open>A reset requested during a generation\<close>




















text \<open>
  And when the generation fails and \<open>engine.unload\<close> rejects, the generate task rejects
  and the reset task is skipped: \<open>engine.resetChat\<close> is never called.
\<close>

lemma reset_skipped_after_rejected_generation:
  "run [TypeInput ''hi'', Send, Render, Reply Resolved, Render,
        Reply (Chunk (Some ''Hello'') None), Render, Reset, Reply (Failed ''aborted''), Render,
        Reply (Failed ''device lost''), Render]
     (emptyChain, newChatUI\<lparr>chatLoaded := True, downloadEnabled := False\<rparr>)
   = (\<lparr>cells = [(GenerateTask, Done Rejected), (ResetTask, Skipped)],
        trace = [Started 0, Settled 0 Rejected]\<rparr>,
      newChatUI\<lparr>chatLoaded := True, downloadEnabled := False, requestInProgress := True,
        blocks := [(True, \<lparr>kind = ''primary'', msgText = [''hi'']\<rparr>),
                   (True, \<lparr>kind = ''secondary'', msgText = [''Hello'']\<rparr>),
                   (True, \<lparr>kind = ''danger'', msgText = [''Generate error, aborted'']\<rparr>)],
        uiChatInputPlaceholder := ''Generating...'',
        chatHistory := [\<lparr>role = User, content = ''hi''\<rparr>],
        engineCalls := [CompletionsCreate [\<lparr>role = User, content = ''hi''\<rparr>],
                        InterruptGenerate, Unload]\<rparr>)"
  by (simp add: onGenerate_def onReset_def chain_eval gen_defs render_next_def)

end
